theory Spec2Isabelle
  imports Main "HOL-Library.Word"
begin

unbundle bit_operations_syntax

chapter \<open>The backtracking searches of the N-Queens visualizer\<close>

text \<open>
  The repository holds three copies of a depth-first search for the placements of \<open>n\<close>
  queens that do not attack each other: the generators \<open>solveNQueensArray\<close> and
  \<open>solveNQueensBitmask\<close> of \<open>App.jsx\<close> with their counting variants
  \<open>countSolutionsArray\<close> and \<open>countSolutionsBitmask\<close>, and \<open>computeTraceSteps\<close> of the two
  other components. Each is embedded below as a total function that threads the state the
  source mutates (the board, the counter, the list of steps). All of them are then shown to
  render one reference search, from which the properties of their traces follow.
\<close>

section \<open>JavaScript values, arrays and events\<close>

text \<open>
  The search engines of the visualizer are written in JavaScript. The values that reach a
  board cell are \<open>undefined\<close> (a cell of \<open>new Array(n)\<close> that was never written, or that was
  reset), an integral number, and \<open>NaN\<close> (what \<open>Math.log2\<close> returns on a negative argument).
\<close>

datatype jsval = Undefined | Number int | NaN

datatype error = RangeError

text \<open>
  \<open>new Array(n)\<close> and \<open>Array(n)\<close> throw a \<open>RangeError\<close> unless \<open>n\<close> is an integer with
  \<open>0 \<le> n < 2^32\<close>; otherwise every cell of the new array reads as \<open>undefined\<close>.
\<close>

definition new_Array :: "int \<Rightarrow> error + jsval list" where
  "new_Array n =
     (if n < 0 \<or> 2 ^ 32 \<le> n then Inl RangeError
      else Inr (replicate (nat n) Undefined))"

text \<open>A read \<open>xs[i]\<close> out of range is \<open>undefined\<close>; a write \<open>xs[i] = v\<close> out of range extends the array.\<close>

definition get_idx :: "jsval list \<Rightarrow> nat \<Rightarrow> jsval" where
  "get_idx xs i = (if i < length xs then xs ! i else Undefined)"

definition set_idx :: "jsval list \<Rightarrow> nat \<Rightarrow> jsval \<Rightarrow> jsval list" where
  "set_idx xs i v =
     (if i < length xs then xs[i := v]
      else xs @ replicate (i - length xs) Undefined @ [v])"

text \<open>
  The events yielded by the two generators of \<open>App.jsx\<close>:
  \<open>{ row, col, action: "place", board }\<close>, \<open>{ row, col, action: "remove", board }\<close> and
  \<open>{ board, action: "solution" }\<close>; \<open>board\<close> is the copy \<open>board.slice()\<close>.
\<close>

datatype event =
    PlaceEv nat jsval "jsval list"
  | RemoveEv nat jsval "jsval list"
  | SolutionEv "jsval list"

fun ev_board :: "event \<Rightarrow> jsval list" where
  "ev_board (PlaceEv row col b) = b"
| "ev_board (RemoveEv row col b) = b"
| "ev_board (SolutionEv b) = b"

fun is_solution :: "event \<Rightarrow> bool" where
  "is_solution (SolutionEv b) = True"
| "is_solution _ = False"

section \<open>The column-array search of \<open>App.jsx\<close>\<close>

text \<open>
  The test of the inner loop, \<open>board[r] === col || Math.abs(board[r] - col) === row - r\<close>.
  On a cell that holds no number both comparisons are false.
\<close>

fun conflict :: "jsval \<Rightarrow> nat \<Rightarrow> nat \<Rightarrow> bool" where
  "conflict (Number k) col d = (k = int col \<or> \<bar>k - int col\<bar> = int d)"
| "conflict Undefined col d = False"
| "conflict NaN col d = False"

text \<open>
  The inner loop \<open>for (let r = 0; r < row; r++)\<close> that computes \<open>valid\<close>, with its \<open>break\<close>.
\<close>

function scan :: "jsval list \<Rightarrow> nat \<Rightarrow> nat \<Rightarrow> nat \<Rightarrow> bool" where
  "scan board row col r =
     (if r < row then
        (if conflict (get_idx board r) col (row - r) then False
         else scan board row col (r + 1))
      else True)"
  by pat_completeness auto
termination
  by (relation "measure (\<lambda>(board, row, col, r). row - r)") auto

declare scan.simps [simp del]

text \<open>
  The columns that no row before \<open>row\<close> holds: the quantity that shrinks with every
  recursive call of the searches on an array.
\<close>

definition free_cols :: "nat \<Rightarrow> nat \<Rightarrow> jsval list \<Rightarrow> nat set" where
  "free_cols n row board = {c. c < n \<and> (\<forall>r<row. get_idx board r \<noteq> Number (int c))}"

lemma get_set_idx: "get_idx (set_idx xs i v) j = (if j = i then v else get_idx xs j)"
  by (auto simp: get_idx_def set_idx_def nth_append)

lemma length_set_idx: "i < length xs \<Longrightarrow> length (set_idx xs i v) = length xs"
  by (simp add: set_idx_def)

lemma scan_iff:
  "scan board row col r \<longleftrightarrow>
     (\<forall>r'. r \<le> r' \<and> r' < row \<longrightarrow> \<not> conflict (get_idx board r') col (row - r'))"
proof (induction board row col r rule: scan.induct)
  case (1 board row col r)
  show ?case
  proof (cases "r < row")
    case False
    then show ?thesis by (subst scan.simps) auto
  next
    case True
    show ?thesis
    proof (cases "conflict (get_idx board r) col (row - r)")
      case c: True
      with True show ?thesis by (subst scan.simps) auto
    next
      case c: False
      have "scan board row col r = scan board row col (r + 1)"
        using True c by (subst scan.simps) simp
      also have "\<dots> \<longleftrightarrow>
          (\<forall>r'. r + 1 \<le> r' \<and> r' < row \<longrightarrow> \<not> conflict (get_idx board r') col (row - r'))"
        using 1 True c by simp
      also have "\<dots> \<longleftrightarrow>
          (\<forall>r'. r \<le> r' \<and> r' < row \<longrightarrow> \<not> conflict (get_idx board r') col (row - r'))"
        using c by (metis Suc_eq_plus1 le_eq_less_or_eq less_eq_Suc_le)
      finally show ?thesis .
    qed
  qed
qed

lemma finite_free_cols: "finite (free_cols n row board)"
  by (simp add: free_cols_def)

lemma free_cols_frame:
  "\<forall>r<row. get_idx b' r = get_idx b r \<Longrightarrow> free_cols n row b' = free_cols n row b"
  by (simp add: free_cols_def)

lemma free_cols_step:
  assumes "col < n" and "\<forall>r<row. get_idx board r \<noteq> Number (int col)"
  shows "card (free_cols n (Suc row) (set_idx board row (Number (int col))))
           < card (free_cols n row board)"
proof (rule psubset_card_mono[OF finite_free_cols])
  have "col \<in> free_cols n row board"
    using assms by (simp add: free_cols_def)
  moreover have "col \<notin> free_cols n (Suc row) (set_idx board row (Number (int col)))"
    by (auto simp: free_cols_def get_set_idx)
  moreover have "free_cols n (Suc row) (set_idx board row (Number (int col)))
                   \<subseteq> free_cols n row board"
    by (auto simp: free_cols_def get_set_idx less_Suc_eq split: if_splits)
  ultimately show "free_cols n (Suc row) (set_idx board row (Number (int col)))
                   \<subset> free_cols n row board"
    by blast
qed

lemma scan_no_column_clash:
  "scan board row col 0 \<Longrightarrow> \<forall>r<row. get_idx board r \<noteq> Number (int col)"
  by (auto simp: scan_iff)

subsection \<open>The generator \<open>solveNQueensArray\<close>\<close>

text \<open>
  \<open>backtrack(row)\<close> of \<open>solveNQueensArray\<close>, and its loop \<open>for (let col = 0; col < n; col++)\<close>
  from the column \<open>col\<close> on. The board is mutated in place by the source, so both functions
  take the board and return it with the events they yield, in order.
\<close>

function backtrack_array :: "nat \<Rightarrow> nat \<Rightarrow> jsval list \<Rightarrow> jsval list \<times> event list"
  and cols_array :: "nat \<Rightarrow> nat \<Rightarrow> nat \<Rightarrow> jsval list \<Rightarrow> jsval list \<times> event list"
where
  "backtrack_array n row board =
     (if row = n then (board, [SolutionEv board])
      else cols_array n row 0 board)"
| "cols_array n row col board =
     (if col < n then
        (if scan board row col 0 then
           (let board1 = set_idx board row (Number (int col));
                (board2, evs) = backtrack_array n (row + 1) board1;
                board3 = set_idx board2 row Undefined;
                (board4, evs') = cols_array n row (col + 1) board3
            in (board4,
                PlaceEv row (Number (int col)) board1 # evs @
                RemoveEv row (Number (int col)) board2 # evs'))
         else cols_array n row (col + 1) board)
      else (board, []))"
  by pat_completeness auto

lemma backtrack_array_frame_dom:
  shows "backtrack_array_cols_array_dom (Inl (n, row, board)) \<Longrightarrow>
      \<forall>r<row. get_idx (fst (backtrack_array n row board)) r = get_idx board r"
  and "backtrack_array_cols_array_dom (Inr (n, row, col, board)) \<Longrightarrow>
      \<forall>r<row. get_idx (fst (cols_array n row col board)) r = get_idx board r"
proof (induct n row board and n row col board rule: backtrack_array_cols_array.pinduct)
  case (1 n row board)
  have "backtrack_array n row board =
     (if row = n then (board, [SolutionEv board]) else cols_array n row 0 board)"
    using 1(1) by (rule backtrack_array.psimps)
  with 1(2) show ?case by (cases "row = n") simp_all
next
  case (2 n row col board)
  show ?case
  proof (cases "col < n \<and> scan board row col 0")
    case False
    have "cols_array n row col board =
       (if col < n then cols_array n row (col + 1) board else (board, []))"
      using False by (subst cols_array.psimps[OF 2(1)]) auto
    with 2(4) False show ?thesis by (cases "col < n") simp_all
  next
    case True
    define board1 where "board1 = set_idx board row (Number (int col))"
    define res where "res = backtrack_array n (row + 1) board1"
    define board3 where "board3 = set_idx (fst res) row Undefined"
    have a: "\<forall>r<row + 1. get_idx (fst res) r = get_idx board1 r"
      using 2(2)[of board1] True by (simp add: board1_def res_def)
    have b: "\<forall>r<row. get_idx (fst (cols_array n row (col + 1) board3)) r = get_idx board3 r"
      using 2(3)[of board1 res "fst res" "snd res" board3] True
      by (simp add: board1_def res_def board3_def)
    have c: "fst (cols_array n row col board) = fst (cols_array n row (col + 1) board3)"
      using True
      by (subst cols_array.psimps[OF 2(1)])
         (simp add: Let_def board1_def res_def board3_def split: prod.splits)
    show ?thesis
      using a b by (simp add: c board3_def board1_def get_set_idx)
  qed
qed

termination backtrack_array
proof (relation "inv_image (less_than <*lex*> less_than <*lex*> less_than)
     (\<lambda>x. case x of
        Inl (n, row, board) \<Rightarrow> (card (free_cols n row board), 1::nat, 0::nat)
      | Inr (n, row, col, board) \<Rightarrow> (card (free_cols n row board), 0, n - col))",
    goal_cases)
  case 1
  show ?case by (intro wf_inv_image wf_lex_prod wf_less_than)
next
  case (2 n row board)
  then show ?case by simp
next
  case (3 n row col board x)
  then show ?case
    using free_cols_step[OF _ scan_no_column_clash, of col n board row] by simp
next
  case (4 n row col board x xa xb y xaa)
  have "\<forall>r<Suc row. get_idx xb r = get_idx x r"
    using backtrack_array_frame_dom(1)[OF 4(7)] 4(3,4,5)
    by (metis Suc_eq_plus1 fst_conv)
  then have "free_cols n row xaa = free_cols n row board"
    using 4(3,6) by (intro free_cols_frame) (simp add: get_set_idx)
  with 4(1) show ?case by simp
next
  case (5 n row col board)
  then show ?case by simp
qed

declare backtrack_array.simps [simp del] cols_array.simps [simp del]

text \<open>
  \<open>function* solveNQueensArray(n)\<close>: the events the generator yields when it is run to its
  end. Its first step allocates the board, which throws for a length that is not valid.
\<close>

definition solveNQueensArray :: "int \<Rightarrow> error + event list" where
  "solveNQueensArray n =
     (case new_Array n of
        Inl e \<Rightarrow> Inl e
      | Inr board \<Rightarrow> Inr (snd (backtrack_array (nat n) 0 board)))"

subsection \<open>The counter \<open>countSolutionsArray\<close>\<close>

text \<open>
  \<open>backtrack(row)\<close> of \<open>countSolutionsArray\<close>: the same search, which increments the
  variable \<open>count\<close> of the enclosing function instead of yielding events.
\<close>

function backtrack_count_array :: "nat \<Rightarrow> nat \<Rightarrow> jsval list \<times> nat \<Rightarrow> jsval list \<times> nat"
  and cols_count_array :: "nat \<Rightarrow> nat \<Rightarrow> nat \<Rightarrow> jsval list \<times> nat \<Rightarrow> jsval list \<times> nat"
where
  "backtrack_count_array n row st =
     (if row = n then (fst st, snd st + 1)
      else cols_count_array n row 0 st)"
| "cols_count_array n row col st =
     (if col < n then
        (if scan (fst st) row col 0 then
           (let st1 = (set_idx (fst st) row (Number (int col)), snd st);
                st2 = backtrack_count_array n (row + 1) st1;
                st3 = (set_idx (fst st2) row Undefined, snd st2)
            in cols_count_array n row (col + 1) st3)
         else cols_count_array n row (col + 1) st)
      else st)"
  by pat_completeness auto

lemma backtrack_count_array_frame_dom:
  shows "backtrack_count_array_cols_count_array_dom (Inl (n, row, st)) \<Longrightarrow>
      \<forall>r<row. get_idx (fst (backtrack_count_array n row st)) r = get_idx (fst st) r"
  and "backtrack_count_array_cols_count_array_dom (Inr (n, row, col, st)) \<Longrightarrow>
      \<forall>r<row. get_idx (fst (cols_count_array n row col st)) r = get_idx (fst st) r"
proof (induct n row st and n row col st rule: backtrack_count_array_cols_count_array.pinduct)
  case (1 n row st)
  have "backtrack_count_array n row st =
     (if row = n then (fst st, snd st + 1) else cols_count_array n row 0 st)"
    using 1(1) by (rule backtrack_count_array.psimps)
  with 1(2) show ?case by (cases "row = n") simp_all
next
  case (2 n row col st)
  show ?case
  proof (cases "col < n \<and> scan (fst st) row col 0")
    case False
    have "cols_count_array n row col st =
       (if col < n then cols_count_array n row (col + 1) st else st)"
      using False by (subst cols_count_array.psimps[OF 2(1)]) auto
    with 2(4) False show ?thesis by (cases "col < n") simp_all
  next
    case True
    define st1 where "st1 = (set_idx (fst st) row (Number (int col)), snd st)"
    define st2 where "st2 = backtrack_count_array n (row + 1) st1"
    define st3 where "st3 = (set_idx (fst st2) row Undefined, snd st2)"
    have a: "\<forall>r<row + 1. get_idx (fst st2) r = get_idx (fst st1) r"
      using 2(2)[of st1] True by (simp add: st1_def st2_def)
    have b: "\<forall>r<row. get_idx (fst (cols_count_array n row (col + 1) st3)) r
                       = get_idx (fst st3) r"
      using 2(3)[of st1 st2 st3] True by (simp add: st1_def st2_def st3_def)
    have c: "cols_count_array n row col st = cols_count_array n row (col + 1) st3"
      using True
      by (subst cols_count_array.psimps[OF 2(1)]) (simp add: Let_def st1_def st2_def st3_def)
    show ?thesis
      using a b by (simp add: c st3_def st1_def get_set_idx)
  qed
qed

termination backtrack_count_array
proof (relation "inv_image (less_than <*lex*> less_than <*lex*> less_than)
     (\<lambda>x. case x of
        Inl (n, row, st) \<Rightarrow> (card (free_cols n row (fst st)), 1::nat, 0::nat)
      | Inr (n, row, col, st) \<Rightarrow> (card (free_cols n row (fst st)), 0, n - col))",
    goal_cases)
  case 1
  show ?case by (intro wf_inv_image wf_lex_prod wf_less_than)
next
  case (2 n row st)
  then show ?case by simp
next
  case (3 n row col st x)
  then show ?case
    using free_cols_step[OF _ scan_no_column_clash, of col n "fst st" row] by simp
next
  case (4 n row col st x xa xb)
  have "\<forall>r<Suc row. get_idx (fst xa) r = get_idx (fst x) r"
    using backtrack_count_array_frame_dom(1)[OF 4(6)] 4(3,4) by simp
  then have "free_cols n row (fst xb) = free_cols n row (fst st)"
    using 4(3,5) by (intro free_cols_frame) (simp add: get_set_idx)
  with 4(1) show ?case by simp
next
  case (5 n row col st)
  then show ?case by simp
qed

declare backtrack_count_array.simps [simp del] cols_count_array.simps [simp del]

text \<open>
  \<open>countSolutionsArray(n)\<close>: \<open>count = 0\<close>, the allocation of the board, the search, and the
  final value of \<open>count\<close>.
\<close>

definition countSolutionsArray :: "int \<Rightarrow> error + nat" where
  "countSolutionsArray n =
     (case new_Array n of
        Inl e \<Rightarrow> Inl e
      | Inr board \<Rightarrow> Inr (snd (backtrack_count_array (nat n) 0 (board, 0))))"

section \<open>The trace of \<open>computeTraceSteps\<close>\<close>

text \<open>
  The steps pushed on \<open>traceSteps\<close>: \<open>{ board: [...board], candidate, status }\<close>, where
  \<open>candidate\<close> is \<open>{ col, row }\<close> or \<open>null\<close>.
\<close>

datatype status = Attempt | Placed | Backtrack | SolutionSt

record step =
  step_board :: "jsval list"
  step_candidate :: "(nat \<times> nat) option"
  step_status :: status

text \<open>The closure \<open>isSafe(col, row)\<close>, with its loop over \<open>prev\<close> and the early \<open>return false\<close>.\<close>

function isSafe :: "jsval list \<Rightarrow> nat \<Rightarrow> nat \<Rightarrow> nat \<Rightarrow> bool" where
  "isSafe board col row prev =
     (if prev < col then
        (if conflict (get_idx board prev) row (col - prev) then False
         else isSafe board col row (prev + 1))
      else True)"
  by pat_completeness auto
termination
  by (relation "measure (\<lambda>(board, col, row, prev). col - prev)") auto

declare isSafe.simps [simp del]

lemma isSafe_scan: "isSafe board col row prev = scan board col row prev"
proof (induction board col row prev rule: isSafe.induct)
  case (1 board col row prev)
  then show ?case
    by (subst isSafe.simps, subst scan.simps) simp
qed

text \<open>
  \<open>solve(col)\<close> and its loop \<open>for (let row = 0; row < n; row++)\<close> from \<open>row\<close> on. The state
  is the pair of \<open>traceSteps\<close> and \<open>board\<close>, both mutated in place by the source.
\<close>

function solve :: "nat \<Rightarrow> nat \<Rightarrow> step list \<times> jsval list \<Rightarrow> step list \<times> jsval list"
  and rows_solve :: "nat \<Rightarrow> nat \<Rightarrow> nat \<Rightarrow> step list \<times> jsval list \<Rightarrow> step list \<times> jsval list"
where
  "solve n col st =
     (if col = n then
        (fst st @ [\<lparr>step_board = snd st, step_candidate = None, step_status = SolutionSt\<rparr>],
         snd st)
      else rows_solve n col 0 st)"
| "rows_solve n col row st =
     (if row < n then
        (let st1 = (fst st @ [\<lparr>step_board = snd st, step_candidate = Some (col, row),
                                step_status = Attempt\<rparr>], snd st)
         in if isSafe (snd st1) col row 0 then
              (let board2 = set_idx (snd st1) col (Number (int row));
                   st2 = (fst st1 @ [\<lparr>step_board = board2, step_candidate = Some (col, row),
                                       step_status = Placed\<rparr>], board2);
                   st3 = solve n (col + 1) st2;
                   board4 = set_idx (snd st3) col (Number (- 1));
                   st4 = (fst st3 @ [\<lparr>step_board = board4, step_candidate = Some (col, row),
                                       step_status = Backtrack\<rparr>], board4)
               in rows_solve n col (row + 1) st4)
            else rows_solve n col (row + 1) st1)
      else st)"
  by pat_completeness auto

lemma solve_frame_dom:
  shows "solve_rows_solve_dom (Inl (n, col, st)) \<Longrightarrow>
      \<forall>r<col. get_idx (snd (solve n col st)) r = get_idx (snd st) r"
  and "solve_rows_solve_dom (Inr (n, col, row, st)) \<Longrightarrow>
      \<forall>r<col. get_idx (snd (rows_solve n col row st)) r = get_idx (snd st) r"
proof (induct n col st and n col row st rule: solve_rows_solve.pinduct)
  case (1 n col st)
  have "solve n col st =
     (if col = n then
        (fst st @ [\<lparr>step_board = snd st, step_candidate = None, step_status = SolutionSt\<rparr>],
         snd st)
      else rows_solve n col 0 st)"
    using 1(1) by (rule solve.psimps)
  with 1(2) show ?case by (cases "col = n") simp_all
next
  case (2 n col row st)
  define st1 where "st1 = (fst st @ [\<lparr>step_board = snd st, step_candidate = Some (col, row),
                                step_status = Attempt\<rparr>], snd st)"
  show ?case
  proof (cases "row < n \<and> isSafe (snd st) col row 0")
    case False
    have "rows_solve n col row st =
       (if row < n then rows_solve n col (row + 1) st1 else st)"
      using False by (subst rows_solve.psimps[OF 2(1)]) (auto simp: st1_def Let_def)
    with 2(4)[of st1] False show ?thesis by (cases "row < n") (simp_all add: st1_def)
  next
    case True
    define board2 where "board2 = set_idx (snd st1) col (Number (int row))"
    define st2 where "st2 = (fst st1 @ [\<lparr>step_board = board2, step_candidate = Some (col, row),
                                       step_status = Placed\<rparr>], board2)"
    define st3 where "st3 = solve n (col + 1) st2"
    define board4 where "board4 = set_idx (snd st3) col (Number (- 1))"
    define st4 where "st4 = (fst st3 @ [\<lparr>step_board = board4, step_candidate = Some (col, row),
                                       step_status = Backtrack\<rparr>], board4)"
    have s1: "snd st1 = snd st" by (simp add: st1_def)
    have a: "\<forall>r<col + 1. get_idx (snd st3) r = get_idx (snd st2) r"
      using 2(2)[of st1 board2 st2] True by (simp add: st1_def board2_def st2_def st3_def)
    have b: "\<forall>r<col. get_idx (snd (rows_solve n col (row + 1) st4)) r = get_idx (snd st4) r"
      using 2(3)[of st1 board2 st2 st3 board4 st4] True
      by (simp add: st1_def board2_def st2_def st3_def board4_def st4_def)
    have c: "rows_solve n col row st = rows_solve n col (row + 1) st4"
      using True
      by (subst rows_solve.psimps[OF 2(1)])
         (simp add: Let_def st1_def board2_def st2_def st3_def board4_def st4_def)
    show ?thesis
      using a b by (simp add: c st4_def board4_def st2_def board2_def s1 get_set_idx)
  qed
qed

termination solve
proof (relation "inv_image (less_than <*lex*> less_than <*lex*> less_than)
     (\<lambda>x. case x of
        Inl (n, col, st) \<Rightarrow> (card (free_cols n col (snd st)), 1::nat, 0::nat)
      | Inr (n, col, row, st) \<Rightarrow> (card (free_cols n col (snd st)), 0, n - row))",
    goal_cases)
  case 1
  show ?case by (intro wf_inv_image wf_lex_prod wf_less_than)
next
  case (2 n col st)
  then show ?case by simp
next
  case (3 n col row st st1 board2 st2)
  then show ?case
    using free_cols_step[OF _ scan_no_column_clash, of row n "snd st" col]
    by (simp add: isSafe_scan)
next
  case (4 n col row st st1 board2 st2 st3 board4 st4)
  have "\<forall>r<Suc col. get_idx (snd st3) r = get_idx (snd st2) r"
    using solve_frame_dom(1)[OF 4(9)] 4(6) by simp
  then have "free_cols n col (snd st4) = free_cols n col (snd st)"
    using 4(2,4,5,7,8) by (intro free_cols_frame) (simp add: get_set_idx)
  with 4(1) show ?case by simp
next
  case (5 n col row st st1)
  then show ?case by simp
qed

declare solve.simps [simp del] rows_solve.simps [simp del]

text \<open>
  \<open>computeTraceSteps(n)\<close>: \<open>traceSteps = []\<close>, \<open>board = Array(n).fill(-1)\<close>, \<open>solve(0)\<close>, and
  the final \<open>traceSteps\<close>.
\<close>

definition fill :: "jsval list \<Rightarrow> jsval \<Rightarrow> jsval list" where
  "fill xs v = map (\<lambda>_. v) xs"

definition computeTraceSteps :: "int \<Rightarrow> error + step list" where
  "computeTraceSteps n =
     (case new_Array n of
        Inl e \<Rightarrow> Inl e
      | Inr a \<Rightarrow> Inr (fst (solve (nat n) 0 ([], fill a (Number (- 1))))))"

section \<open>The bitmask search of \<open>App.jsx\<close>\<close>

text \<open>
  The bitwise operators of JavaScript work on 32-bit two's complement integers:
  \<open>&\<close>, \<open>|\<close>, \<open>~\<close>, \<open><<\<close> and the sign-propagating \<open>>>\<close> convert their operands with
  \<open>ToInt32\<close> and return such an integer, and \<open><<\<close> uses its right operand modulo 32. The
  arithmetic in between (\<open>(1 << n) - 1\<close>, \<open>-available\<close>, \<open>available - 1\<close>) is exact on
  numbers, and its result is reduced modulo \<open>2^32\<close> by the operator that consumes it, which
  is the arithmetic of \<open>32 word\<close>.
\<close>

type_synonym int32 = "32 word"

text \<open>\<open>((1 << n) - 1) & ~(columns | diag1 | diag2)\<close>\<close>

definition available_mask :: "int \<Rightarrow> int32 \<Rightarrow> int32 \<Rightarrow> int32 \<Rightarrow> int32" where
  "available_mask n columns diag1 diag2 =
     (push_bit (nat (n mod 32)) 1 - 1) AND NOT (columns OR diag1 OR diag2)"

text \<open>
  \<open>Math.log2(pick)\<close>. The argument is always \<open>available & -available\<close> for a non-zero
  \<open>available\<close>, that is \<open>2^k\<close> for the lowest set bit \<open>k\<close> of \<open>available\<close> (lemmas
  \<open>pick_lowest_bit\<close> and \<open>pick_single_bit\<close> below), read as a signed number. For
  \<open>k \<le> 30\<close> the result is \<open>k\<close> (the logarithm of a power of two is taken to be exact, as
  it is in the engines in use); for \<open>k = 31\<close> the argument is \<open>-2^31\<close> and the result is
  \<open>NaN\<close>. No other argument occurs.
\<close>

function log2_nat :: "nat \<Rightarrow> nat" where
  "log2_nat m = (if m < 2 then 0 else Suc (log2_nat (m div 2)))"
  by pat_completeness auto
termination
  by (relation "measure (\<lambda>m. m)") auto

declare log2_nat.simps [simp del]

definition js_log2 :: "int32 \<Rightarrow> jsval" where
  "js_log2 pick = (if 0 < sint pick then Number (int (log2_nat (unat pick))) else NaN)"

subsection \<open>The lowest set bit of a word\<close>

lemma lowest_bit_ex:
  fixes w :: "'a::len word"
  assumes "w \<noteq> 0"
  shows "\<exists>c. bit w c \<and> (\<forall>j<c. \<not> bit w j)"
proof -
  from assms obtain i where "bit w i"
    by (auto simp: bit_eq_iff)
  then have "bit w (LEAST i. bit w i)" by (rule LeastI)
  moreover have "\<forall>j<(LEAST i. bit w i). \<not> bit w j"
    using not_less_Least by blast
  ultimately show ?thesis by blast
qed

lemma decr_lowest_bit:
  fixes w :: "'a::len word"
  assumes c: "bit w c" and low: "\<forall>j<c. \<not> bit w j"
  shows "w - 1 = mask c OR (w AND NOT (mask (Suc c)))"
proof -
  define rest where "rest = w AND NOT (mask (Suc c))"
  have w: "w = push_bit c 1 OR rest"
    using c low
    by (auto simp: rest_def bit_simps less_Suc_eq_le intro!: bit_eqI dest: bit_imp_le_length)
       (metis le_neq_implies_less)+
  have "push_bit c 1 OR rest = push_bit c 1 + rest"
    by (rule disjunctive_add_eq_or[symmetric]) (auto simp: rest_def bit_simps intro!: bit_eqI)
  then have "w - 1 = (push_bit c 1 - 1) + rest"
    using w by simp
  also have "push_bit c (1::'a word) - 1 = mask c"
    by (simp add: mask_eq_exp_minus_1 push_bit_eq_mult)
  also have "mask c + rest = mask c OR rest"
    by (rule disjunctive_add_eq_or) (auto simp: rest_def bit_simps intro!: bit_eqI)
  finally show ?thesis by (simp add: rest_def)
qed

lemma bit_decr_lowest:
  fixes w :: "'a::len word"
  assumes c: "bit w c" and low: "\<forall>j<c. \<not> bit w j"
  shows "bit (w - 1) i \<longleftrightarrow> i < LENGTH('a) \<and> (i < c \<or> (c < i \<and> bit w i))"
  using bit_imp_le_length[OF c]
  by (auto simp: decr_lowest_bit[OF c low] bit_simps less_Suc_eq_le dest: bit_imp_le_length)

lemma pick_lowest_bit:
  fixes w :: "'a::len word"
  assumes c: "bit w c" and low: "\<forall>j<c. \<not> bit w j"
  shows "w AND - w = push_bit c 1"
  using c low
  by (auto simp: bit_simps bit_decr_lowest[OF c low] intro!: bit_eqI dest: bit_imp_le_length)

lemma clear_lowest_bit:
  fixes w :: "'a::len word"
  assumes c: "bit w c" and low: "\<forall>j<c. \<not> bit w j"
  shows "bit (w AND (w - 1)) i \<longleftrightarrow> bit w i \<and> i \<noteq> c"
  using c low
  by (auto simp: bit_simps bit_decr_lowest[OF c low] dest: bit_imp_le_length)

lemma pick_nonzero:
  fixes w :: "'a::len word"
  assumes "w \<noteq> 0"
  shows "w AND - w \<noteq> 0"
proof -
  from lowest_bit_ex[OF assms] obtain c where c: "bit w c" "\<forall>j<c. \<not> bit w j" by blast
  have "bit (w AND - w) c"
    using c bit_imp_le_length[OF c(1)] by (simp add: pick_lowest_bit[OF c] bit_simps)
  then show ?thesis by auto
qed

lemma pick_single_bit:
  fixes w :: "'a::len word"
  assumes "w \<noteq> 0"
  shows "\<exists>c<LENGTH('a). w AND - w = push_bit c 1"
proof -
  from lowest_bit_ex[OF assms] obtain c where c: "bit w c" "\<forall>j<c. \<not> bit w j" by blast
  have "c < LENGTH('a)" using c(1) by (rule bit_imp_le_length)
  with pick_lowest_bit[OF c] show ?thesis by blast
qed

lemma clear_lowest_less:
  fixes w :: "'a::len word"
  assumes "w \<noteq> 0"
  shows "unat (w AND (w - 1)) < unat w"
proof -
  have "w AND (w - 1) \<le> w - 1" by (rule word_and_le1)
  then have "unat (w AND (w - 1)) \<le> unat (w - 1)" by (simp add: word_le_nat_alt)
  with measure_unat[OF assms] show ?thesis by simp
qed

text \<open>
  The bit positions that are clear in \<open>columns\<close> or still to be tried in \<open>available\<close>: the
  quantity that shrinks with every recursive call of the bitmask searches.
\<close>

definition zero_bits :: "int32 \<Rightarrow> int32 \<Rightarrow> nat set" where
  "zero_bits columns available = {i. i < 32 \<and> (\<not> bit columns i \<or> bit available i)}"

lemma finite_zero_bits: "finite (zero_bits columns available)"
  by (simp add: zero_bits_def)

lemma zero_bits_available_mask:
  "zero_bits columns (available_mask n columns diag1 diag2) = zero_bits columns 0"
  by (auto simp: zero_bits_def available_mask_def bit_simps)

lemma zero_bits_pick:
  assumes "available \<noteq> 0"
  shows "card (zero_bits (columns OR (available AND - available)) 0)
           < card (zero_bits columns available)"
proof (rule psubset_card_mono[OF finite_zero_bits])
  from pick_nonzero[OF assms] obtain i where i: "bit (available AND - available) i"
    by (auto simp: bit_eq_iff)
  then have "i \<in> zero_bits columns available"
    and "i \<notin> zero_bits (columns OR (available AND - available)) 0"
    by (auto simp: zero_bits_def bit_simps dest: bit_imp_le_length)
  moreover have "zero_bits (columns OR (available AND - available)) 0
                   \<subseteq> zero_bits columns available"
    by (auto simp: zero_bits_def bit_simps)
  ultimately show "zero_bits (columns OR (available AND - available)) 0
                     \<subset> zero_bits columns available"
    by blast
qed

lemma zero_bits_clear:
  "card (zero_bits columns (available AND (available - 1))) \<le> card (zero_bits columns available)"
  by (rule card_mono[OF finite_zero_bits]) (auto simp: zero_bits_def bit_simps)

subsection \<open>The generator \<open>solveNQueensBitmask\<close>\<close>

text \<open>
  \<open>backtrack(row, columns, diag1, diag2)\<close> of \<open>solveNQueensBitmask\<close>, and its loop
  \<open>while (available)\<close> from the current value of \<open>available\<close> on.
\<close>

function backtrack_bitmask ::
    "int \<Rightarrow> nat \<Rightarrow> int32 \<Rightarrow> int32 \<Rightarrow> int32 \<Rightarrow> jsval list \<Rightarrow> jsval list \<times> event list"
  and while_bitmask ::
    "int \<Rightarrow> nat \<Rightarrow> int32 \<Rightarrow> int32 \<Rightarrow> int32 \<Rightarrow> int32 \<Rightarrow> jsval list \<Rightarrow> jsval list \<times> event list"
where
  "backtrack_bitmask n row columns diag1 diag2 board =
     (if int row = n then (board, [SolutionEv board])
      else while_bitmask n row columns diag1 diag2
             (available_mask n columns diag1 diag2) board)"
| "while_bitmask n row columns diag1 diag2 available board =
     (if available \<noteq> 0 then
        (let pick = available AND - available;
             col = js_log2 pick;
             board1 = set_idx board row col;
             (board2, evs) = backtrack_bitmask n (row + 1) (columns OR pick)
                               (push_bit 1 (diag1 OR pick)) (signed_drop_bit 1 (diag2 OR pick))
                               board1;
             board3 = set_idx board2 row Undefined;
             (board4, evs') = while_bitmask n row columns diag1 diag2
                                (available AND (available - 1)) board3
         in (board4, PlaceEv row col board1 # evs @ RemoveEv row col board2 # evs'))
      else (board, []))"
  by pat_completeness auto
termination
proof (relation "inv_image (less_than <*lex*> less_than <*lex*> less_than)
     (\<lambda>x. case x of
        Inl (n, row, columns, diag1, diag2, board) \<Rightarrow>
          (card (zero_bits columns 0), 1::nat, 0::nat)
      | Inr (n, row, columns, diag1, diag2, available, board) \<Rightarrow>
          (card (zero_bits columns available), 0, unat available))",
    goal_cases)
  case 1
  show ?case by (intro wf_inv_image wf_lex_prod wf_less_than)
next
  case (2 n row columns diag1 diag2 board)
  then show ?case by (simp add: zero_bits_available_mask)
next
  case (3 n row columns diag1 diag2 available board pick col board1)
  then show ?case using zero_bits_pick[of available columns] by simp
next
  case (4 n row columns diag1 diag2 available board pick col board1 res board2 evs board3)
  then show ?case
    using zero_bits_clear[of columns available] clear_lowest_less[of available] by auto
qed

declare backtrack_bitmask.simps [simp del] while_bitmask.simps [simp del]

text \<open>\<open>function* solveNQueensBitmask(n)\<close>, run to its end.\<close>

definition solveNQueensBitmask :: "int \<Rightarrow> error + event list" where
  "solveNQueensBitmask n =
     (case new_Array n of
        Inl e \<Rightarrow> Inl e
      | Inr board \<Rightarrow> Inr (snd (backtrack_bitmask n 0 0 0 0 board)))"

subsection \<open>The counter \<open>countSolutionsBitmask\<close>\<close>

text \<open>
  \<open>backtrack(row, columns, diag1, diag2)\<close> of \<open>countSolutionsBitmask\<close>, which increments
  \<open>count\<close>; here \<open>available\<close> is updated before the recursive call.
\<close>

function backtrack_count_bitmask ::
    "int \<Rightarrow> nat \<Rightarrow> int32 \<Rightarrow> int32 \<Rightarrow> int32 \<Rightarrow> nat \<Rightarrow> nat"
  and while_count_bitmask ::
    "int \<Rightarrow> nat \<Rightarrow> int32 \<Rightarrow> int32 \<Rightarrow> int32 \<Rightarrow> int32 \<Rightarrow> nat \<Rightarrow> nat"
where
  "backtrack_count_bitmask n row columns diag1 diag2 count =
     (if int row = n then count + 1
      else while_count_bitmask n row columns diag1 diag2
             (available_mask n columns diag1 diag2) count)"
| "while_count_bitmask n row columns diag1 diag2 available count =
     (if available \<noteq> 0 then
        (let pick = available AND - available;
             available' = available AND (available - 1);
             count' = backtrack_count_bitmask n (row + 1) (columns OR pick)
                        (push_bit 1 (diag1 OR pick)) (signed_drop_bit 1 (diag2 OR pick)) count
         in while_count_bitmask n row columns diag1 diag2 available' count')
      else count)"
  by pat_completeness auto
termination
proof (relation "inv_image (less_than <*lex*> less_than <*lex*> less_than)
     (\<lambda>x. case x of
        Inl (n, row, columns, diag1, diag2, count) \<Rightarrow>
          (card (zero_bits columns 0), 1::nat, 0::nat)
      | Inr (n, row, columns, diag1, diag2, available, count) \<Rightarrow>
          (card (zero_bits columns available), 0, unat available))",
    goal_cases)
  case 1
  show ?case by (intro wf_inv_image wf_lex_prod wf_less_than)
next
  case (2 n row columns diag1 diag2 count)
  then show ?case by (simp add: zero_bits_available_mask)
next
  case (3 n row columns diag1 diag2 available count pick available')
  then show ?case using zero_bits_pick[of available columns] by simp
next
  case (4 n row columns diag1 diag2 available count pick available' count')
  then show ?case
    using zero_bits_clear[of columns available] clear_lowest_less[of available] by auto
qed

declare backtrack_count_bitmask.simps [simp del] while_count_bitmask.simps [simp del]

text \<open>\<open>countSolutionsBitmask(n)\<close>: no array is allocated, so no call throws.\<close>

definition countSolutionsBitmask :: "int \<Rightarrow> error + nat" where
  "countSolutionsBitmask n = Inr (backtrack_count_bitmask n 0 0 0 0 0)"

section \<open>The search tree both encodings explore\<close>

text \<open>
  A reference description of the depth-first search, on the list \<open>qs\<close> of the columns of
  the queens placed so far (row \<open>r\<close> holds the queen \<open>qs ! r\<close>): \<open>m\<close> columns are tried in
  ascending order at each of the \<open>k\<close> rows that remain. Every search function of the source
  is shown below to produce a rendering of this sequence.
\<close>

datatype gev = GAttempt "nat list" nat | GPlace "nat list" nat | GRemove "nat list" nat
  | GSol "nat list"

text \<open>Column \<open>c\<close> in the next row is attacked by none of the queens \<open>qs\<close>.\<close>

definition ok :: "nat list \<Rightarrow> nat \<Rightarrow> bool" where
  "ok qs c = (\<forall>r<length qs. \<not> conflict (Number (int (qs ! r))) c (length qs - r))"

fun gsearch :: "nat \<Rightarrow> nat \<Rightarrow> nat list \<Rightarrow> gev list" where
  "gsearch m 0 qs = [GSol qs]"
| "gsearch m (Suc k) qs =
     concat (map (\<lambda>c. GAttempt qs c #
                    (if ok qs c then GPlace qs c # gsearch m k (qs @ [c]) @ [GRemove qs c]
                     else [])) [0..<m])"

definition gtry :: "nat \<Rightarrow> nat \<Rightarrow> nat list \<Rightarrow> nat \<Rightarrow> gev list" where
  "gtry m k qs = (\<lambda>c.
     GAttempt qs c #
       (if ok qs c then GPlace qs c # gsearch m k (qs @ [c]) @ [GRemove qs c] else []))"

definition gcols :: "nat \<Rightarrow> nat \<Rightarrow> nat list \<Rightarrow> nat \<Rightarrow> gev list" where
  "gcols m k qs c = concat (map (gtry m k qs) [c..<m])"

lemma gsearch_Suc: "gsearch m (Suc k) qs = gcols m k qs 0"
  by (simp add: gcols_def gtry_def)

lemma gcols_step: "c < m \<Longrightarrow> gcols m k qs c = gtry m k qs c @ gcols m k qs (Suc c)"
  by (simp add: gcols_def upt_conv_Cons)

lemma gcols_done: "\<not> c < m \<Longrightarrow> gcols m k qs c = []"
  by (simp add: gcols_def)

definition board_of :: "jsval \<Rightarrow> nat \<Rightarrow> nat list \<Rightarrow> jsval list" where
  "board_of u n qs = map (\<lambda>q. Number (int q)) qs @ replicate (n - length qs) u"

lemma length_board_of: "length qs \<le> n \<Longrightarrow> length (board_of u n qs) = n"
  by (simp add: board_of_def)

lemma get_board_of:
  "r < length qs \<Longrightarrow> get_idx (board_of u n qs) r = Number (int (qs ! r))"
  by (simp add: board_of_def get_idx_def nth_append)

lemma set_board_of:
  "length qs < n \<Longrightarrow> set_idx (board_of u n qs) (length qs) (Number (int c)) = board_of u n (qs @ [c])"
  by (rule nth_equalityI) (auto simp: board_of_def set_idx_def nth_append nth_list_update)

lemma unset_board_of:
  "length qs < n \<Longrightarrow> set_idx (board_of u n (qs @ [c])) (length qs) u = board_of u n qs"
  by (rule nth_equalityI) (auto simp: board_of_def set_idx_def nth_append nth_list_update)

lemma scan_board_of: "scan (board_of u n qs) (length qs) c 0 = ok qs c"
  by (simp add: scan_iff ok_def get_board_of)

fun render_array :: "nat \<Rightarrow> gev \<Rightarrow> event list" where
  "render_array n (GAttempt qs c) = []"
| "render_array n (GPlace qs c) =
     [PlaceEv (length qs) (Number (int c)) (board_of Undefined n (qs @ [c]))]"
| "render_array n (GRemove qs c) =
     [RemoveEv (length qs) (Number (int c)) (board_of Undefined n (qs @ [c]))]"
| "render_array n (GSol qs) = [SolutionEv (board_of Undefined n qs)]"

subsection \<open>The array generator renders the reference search\<close>

lemma backtrack_array_refines:
  shows "\<And>qs. board = board_of Undefined n qs \<Longrightarrow> length qs = row \<Longrightarrow> row \<le> n \<Longrightarrow>
      backtrack_array n row board
        = (board, concat (map (render_array n) (gsearch n (n - row) qs)))"
  and "\<And>qs. board = board_of Undefined n qs \<Longrightarrow> length qs = row \<Longrightarrow> row < n \<Longrightarrow>
      cols_array n row col board
        = (board, concat (map (render_array n) (gcols n (n - Suc row) qs col)))"
proof (induct n row board and n row col board rule: backtrack_array_cols_array.induct)
  case (1 n row board)
  show ?case
  proof (cases "row = n")
    case True
    then show ?thesis using 1(2) by (subst backtrack_array.simps) simp
  next
    case False
    with 1(4) have lt: "row < n" by simp
    then have k: "n - row = Suc (n - Suc row)" by simp
    show ?thesis
      using 1(1)[OF False 1(2,3) lt] False
      by (subst backtrack_array.simps) (simp add: k gsearch_Suc del: gsearch.simps)
  qed
next
  case (2 n row col board)
  show ?case
  proof (cases "col < n")
    case False
    then show ?thesis by (subst cols_array.simps) (simp add: gcols_done)
  next
    case True
    note col = True
    have sc: "scan board row col 0 = ok qs col"
      using 2(4,5) scan_board_of[of Undefined n qs col] by simp
    show ?thesis
    proof (cases "ok qs col")
      case False
      then show ?thesis
        using 2(3)[OF col _ 2(4,5,6)] col sc
        by (subst cols_array.simps) (simp add: gcols_step gtry_def)
    next
      case True
      define board1 where "board1 = set_idx board row (Number (int col))"
      have b1: "board1 = board_of Undefined n (qs @ [col])"
        using 2(4,6) by (simp add: board1_def set_board_of 2(5)[symmetric])
      have sc': "scan board row col 0" using sc True by simp
      have r1': "backtrack_array n (row + 1) board1
                  = (board1, concat (map (render_array n) (gsearch n (n - Suc row) (qs @ [col]))))"
        using 2(1)[OF col sc' board1_def b1] 2(5,6) by simp
      have r1: "backtrack_array n (Suc row) board1
                  = (board1, concat (map (render_array n) (gsearch n (n - Suc row) (qs @ [col]))))"
        using r1' by simp
      have b3: "set_idx board1 row Undefined = board"
        using 2(4,6) by (simp add: b1 unset_board_of 2(5)[symmetric])
      have r2': "cols_array n row (col + 1) board
                  = (board, concat (map (render_array n) (gcols n (n - Suc row) qs (col + 1))))"
        by (rule 2(2)[OF col sc' board1_def refl r1'[symmetric] b3[symmetric] 2(4,5,6)])
      have r2: "cols_array n row (Suc col) board
                  = (board, concat (map (render_array n) (gcols n (n - Suc row) qs (Suc col))))"
        using r2' by simp
      have "cols_array n row col board =
          (case backtrack_array n (Suc row) board1 of
             (board2, evs) \<Rightarrow>
               (case cols_array n row (Suc col) (set_idx board2 row Undefined) of
                  (board4, evs') \<Rightarrow>
                    (board4, PlaceEv row (Number (int col)) board1 # evs @
                             RemoveEv row (Number (int col)) board2 # evs')))"
        using col True sc
        by (subst cols_array.simps) (simp add: Let_def board1_def)
      also have "\<dots> = (board, PlaceEv row (Number (int col)) board1 #
                 concat (map (render_array n) (gsearch n (n - Suc row) (qs @ [col]))) @
                 RemoveEv row (Number (int col)) board1 #
                 concat (map (render_array n) (gcols n (n - Suc row) qs (Suc col))))"
        by (simp only: r1 b3 r2 prod.case)
      also have "\<dots> = (board, concat (map (render_array n) (gcols n (n - Suc row) qs col)))"
        using col True by (simp add: gcols_step gtry_def b1 2(5))
      finally show ?thesis .
    qed
  qed
qed

text \<open>The solutions of the reference search, in the order it finds them.\<close>

fun sol_of :: "gev \<Rightarrow> nat list list" where
  "sol_of (GSol qs) = [qs]"
| "sol_of _ = []"

definition gsols :: "nat \<Rightarrow> nat \<Rightarrow> nat list \<Rightarrow> nat list list" where
  "gsols m k qs = concat (map sol_of (gsearch m k qs))"

subsection \<open>The array counter and \<open>computeTraceSteps\<close> render the reference search\<close>

lemma backtrack_count_array_refines:
  shows "\<And>qs. fst st = board_of Undefined n qs \<Longrightarrow> length qs = row \<Longrightarrow> row \<le> n \<Longrightarrow>
      backtrack_count_array n row st
        = (fst st, snd st + length (concat (map sol_of (gsearch n (n - row) qs))))"
  and "\<And>qs. fst st = board_of Undefined n qs \<Longrightarrow> length qs = row \<Longrightarrow> row < n \<Longrightarrow>
      cols_count_array n row col st
        = (fst st, snd st + length (concat (map sol_of (gcols n (n - Suc row) qs col))))"
proof (induct n row st and n row col st rule: backtrack_count_array_cols_count_array.induct)
  case (1 n row st)
  show ?case
  proof (cases "row = n")
    case True
    then show ?thesis using 1(2) by (subst backtrack_count_array.simps) simp
  next
    case False
    with 1(4) have lt: "row < n" by simp
    then have k: "n - row = Suc (n - Suc row)" by simp
    show ?thesis
      using 1(1)[OF False 1(2,3) lt] False
      by (subst backtrack_count_array.simps) (simp add: k gsearch_Suc del: gsearch.simps)
  qed
next
  case (2 n row col st)
  show ?case
  proof (cases "col < n")
    case False
    then show ?thesis by (subst cols_count_array.simps) (simp add: gcols_done)
  next
    case True
    note col = True
    have sc: "scan (fst st) row col 0 = ok qs col"
      using 2(4,5) scan_board_of[of Undefined n qs col] by simp
    show ?thesis
    proof (cases "ok qs col")
      case False
      then show ?thesis
        using 2(3)[OF col _ 2(4,5,6)] col sc
        by (subst cols_count_array.simps) (simp add: gcols_step gtry_def)
    next
      case True
      have sc': "scan (fst st) row col 0" using sc True by simp
      define st1 where "st1 = (set_idx (fst st) row (Number (int col)), snd st)"
      define st2 where "st2 = backtrack_count_array n (row + 1) st1"
      define st3 where "st3 = (set_idx (fst st2) row Undefined, snd st2)"
      have b1: "fst st1 = board_of Undefined n (qs @ [col])"
        using 2(4,6) by (simp add: st1_def set_board_of 2(5)[symmetric])
      have l1: "length (qs @ [col]) = row + 1" using 2(5) by simp
      have r1: "st2 = (fst st1, snd st1 +
                   length (concat (map sol_of (gsearch n (n - Suc row) (qs @ [col])))))"
        using 2(1)[OF col sc' st1_def b1 l1] 2(6) by (simp add: st2_def)
      have b3: "fst st3 = fst st"
        using 2(4,6) by (simp add: st3_def r1 b1 unset_board_of 2(5)[symmetric])
      have s3: "snd st3 = snd st +
                   length (concat (map sol_of (gsearch n (n - Suc row) (qs @ [col]))))"
        by (simp add: st3_def r1 st1_def)
      have r2: "cols_count_array n row (col + 1) st3
                  = (fst st3, snd st3 +
                       length (concat (map sol_of (gcols n (n - Suc row) qs (col + 1)))))"
        using 2(2)[OF col sc' st1_def st2_def st3_def _ 2(5,6)] b3 2(4) by simp
      have "cols_count_array n row col st = cols_count_array n row (col + 1) st3"
        using col sc'
        by (subst cols_count_array.simps) (simp add: Let_def st1_def st2_def st3_def)
      also note r2
      also have "(fst st3, snd st3 +
                       length (concat (map sol_of (gcols n (n - Suc row) qs (col + 1)))))
          = (fst st, snd st + length (concat (map sol_of (gcols n (n - Suc row) qs col))))"
        using col True by (simp add: b3 s3 gcols_step gtry_def)
      finally show ?thesis .
    qed
  qed
qed

fun render_steps :: "nat \<Rightarrow> gev \<Rightarrow> step list" where
  "render_steps n (GAttempt qs c) =
     [\<lparr>step_board = board_of (Number (- 1)) n qs, step_candidate = Some (length qs, c),
       step_status = Attempt\<rparr>]"
| "render_steps n (GPlace qs c) =
     [\<lparr>step_board = board_of (Number (- 1)) n (qs @ [c]), step_candidate = Some (length qs, c),
       step_status = Placed\<rparr>]"
| "render_steps n (GRemove qs c) =
     [\<lparr>step_board = board_of (Number (- 1)) n qs, step_candidate = Some (length qs, c),
       step_status = Backtrack\<rparr>]"
| "render_steps n (GSol qs) =
     [\<lparr>step_board = board_of (Number (- 1)) n qs, step_candidate = None,
       step_status = SolutionSt\<rparr>]"

lemma solve_refines:
  shows "\<And>qs. snd st = board_of (Number (- 1)) n qs \<Longrightarrow> length qs = col \<Longrightarrow> col \<le> n \<Longrightarrow>
      solve n col st
        = (fst st @ concat (map (render_steps n) (gsearch n (n - col) qs)), snd st)"
  and "\<And>qs. snd st = board_of (Number (- 1)) n qs \<Longrightarrow> length qs = col \<Longrightarrow> col < n \<Longrightarrow>
      rows_solve n col row st
        = (fst st @ concat (map (render_steps n) (gcols n (n - Suc col) qs row)), snd st)"
proof (induct n col st and n col row st rule: solve_rows_solve.induct)
  case (1 n col st)
  show ?case
  proof (cases "col = n")
    case True
    then show ?thesis using 1(2) by (subst solve.simps) simp
  next
    case False
    with 1(4) have lt: "col < n" by simp
    then have k: "n - col = Suc (n - Suc col)" by simp
    show ?thesis
      using 1(1)[OF False 1(2,3) lt] False
      by (subst solve.simps) (simp add: k gsearch_Suc del: gsearch.simps)
  qed
next
  case (2 n col row st)
  show ?case
  proof (cases "row < n")
    case False
    then show ?thesis by (subst rows_solve.simps) (simp add: gcols_done)
  next
    case True
    note row = True
    define att where "att = \<lparr>step_board = snd st, step_candidate = Some (col, row),
                                step_status = Attempt\<rparr>"
    define st1 where "st1 = (fst st @ [att], snd st)"
    have st1: "st1 = (fst st @ [\<lparr>step_board = snd st, step_candidate = Some (col, row),
                                step_status = Attempt\<rparr>], snd st)"
      by (simp add: st1_def att_def)
    have att: "render_steps n (GAttempt qs row) = [att]"
      using 2(4,5) by (simp add: att_def)
    have sc: "isSafe (snd st1) col row 0 = ok qs row"
      using 2(4,5) scan_board_of[of "Number (- 1)" n qs row] by (simp add: isSafe_scan st1_def)
    have b1: "snd st1 = board_of (Number (- 1)) n qs" using 2(4) by (simp add: st1_def)
    show ?thesis
    proof (cases "ok qs row")
      case False
      have "rows_solve n col row st = rows_solve n col (row + 1) st1"
        using row sc False
        by (subst rows_solve.simps) (simp add: Let_def st1_def att_def)
      also have "\<dots> = (fst st1 @ concat (map (render_steps n)
                     (gcols n (n - Suc col) qs (row + 1))), snd st1)"
        using 2(3)[OF row st1 _ b1 2(5,6)] sc False by simp
      also have "\<dots> = (fst st @ concat (map (render_steps n)
                     (gcols n (n - Suc col) qs row)), snd st)"
        using row False att by (simp add: st1_def gcols_step gtry_def)
      finally show ?thesis .
    next
      case True
      have sc': "isSafe (snd st1) col row 0" using sc True by simp
      define board2 where "board2 = set_idx (snd st1) col (Number (int row))"
      define pl where "pl = \<lparr>step_board = board2, step_candidate = Some (col, row),
                              step_status = Placed\<rparr>"
      define st2 where "st2 = (fst st1 @ [pl], board2)"
      define st3 where "st3 = solve n (col + 1) st2"
      define board4 where "board4 = set_idx (snd st3) col (Number (- 1))"
      define bk where "bk = \<lparr>step_board = board4, step_candidate = Some (col, row),
                              step_status = Backtrack\<rparr>"
      define st4 where "st4 = (fst st3 @ [bk], board4)"
      have st2: "st2 = (fst st1 @ [\<lparr>step_board = board2, step_candidate = Some (col, row),
                              step_status = Placed\<rparr>], board2)"
        by (simp add: st2_def pl_def)
      have st4: "st4 = (fst st3 @ [\<lparr>step_board = board4, step_candidate = Some (col, row),
                              step_status = Backtrack\<rparr>], board4)"
        by (simp add: st4_def bk_def)
      have b2: "board2 = board_of (Number (- 1)) n (qs @ [row])"
        using 2(6) by (simp add: board2_def b1 set_board_of 2(5)[symmetric])
      have b2': "snd st2 = board_of (Number (- 1)) n (qs @ [row])"
        using b2 by (simp add: st2_def)
      have l1: "length (qs @ [row]) = col + 1" using 2(5) by simp
      have r1: "st3 = (fst st2 @ concat (map (render_steps n)
                     (gsearch n (n - Suc col) (qs @ [row]))), snd st2)"
        using 2(1)[OF row st1 sc' board2_def st2 b2' l1] 2(6) by (simp add: st3_def)
      have b4: "board4 = board_of (Number (- 1)) n qs"
        using 2(6) by (simp add: board4_def r1 b2' unset_board_of 2(5)[symmetric])
      have b4': "snd st4 = board_of (Number (- 1)) n qs"
        using b4 by (simp add: st4_def)
      have r2: "rows_solve n col (row + 1) st4
                  = (fst st4 @ concat (map (render_steps n)
                       (gcols n (n - Suc col) qs (row + 1))), snd st4)"
        by (rule 2(2)[OF row st1 sc' board2_def st2 st3_def board4_def st4 b4' 2(5,6)])
      have pl: "render_steps n (GPlace qs row) = [pl]"
        using 2(5) by (simp add: pl_def b2)
      have bk: "render_steps n (GRemove qs row) = [bk]"
        using 2(5) by (simp add: bk_def b4)
      have "rows_solve n col row st = rows_solve n col (row + 1) st4"
        using row sc'
        by (subst rows_solve.simps)
           (simp add: Let_def st4_def bk_def board4_def st3_def st2_def pl_def board2_def
              st1_def att_def)
      also note r2
      also have "(fst st4 @ concat (map (render_steps n)
                       (gcols n (n - Suc col) qs (row + 1))), snd st4)
          = (fst st @ concat (map (render_steps n) (gcols n (n - Suc col) qs row)), snd st)"
        using row True att pl bk
        by (simp add: st4_def r1 st2_def st1_def b4 2(4) gcols_step gtry_def)
      finally show ?thesis .
    qed
  qed
qed

subsection \<open>The bitmask searches render the reference search\<close>

text \<open>
  What the three masks hold when the queens \<open>qs\<close> are placed: \<open>columns\<close> the occupied
  columns, \<open>diag1\<close> and \<open>diag2\<close> the columns that the two diagonals through each queen
  reach in the next row, as far as they lie within the 32 bits.
\<close>

definition masks_inv :: "nat list \<Rightarrow> int32 \<Rightarrow> int32 \<Rightarrow> int32 \<Rightarrow> bool" where
  "masks_inv qs columns diag1 diag2 \<longleftrightarrow>
     (\<forall>i. bit columns i \<longleftrightarrow> i < 32 \<and> (\<exists>r<length qs. qs ! r = i)) \<and>
     (\<forall>i. bit diag1 i \<longleftrightarrow> i < 32 \<and> (\<exists>r<length qs. i = qs ! r + (length qs - r))) \<and>
     (\<forall>i. bit diag2 i \<longleftrightarrow> i < 32 \<and> (\<exists>r<length qs. qs ! r = i + (length qs - r)))"

lemma masks_inv_Nil: "masks_inv [] 0 0 0"
  by (simp add: masks_inv_def)

lemma ok_iff:
  "ok qs c \<longleftrightarrow> (\<forall>r<length qs. qs ! r \<noteq> c \<and> c \<noteq> qs ! r + (length qs - r)
                      \<and> qs ! r \<noteq> c + (length qs - r))"
  unfolding ok_def by (intro all_cong) (auto simp: abs_if)

lemma available_mask_iff:
  assumes "masks_inv qs columns diag1 diag2" and "0 \<le> n"
  shows "bit (available_mask n columns diag1 diag2) i \<longleftrightarrow> i < nat (n mod 32) \<and> ok qs i"
proof -
  have m: "nat (n mod 32) < 32" by simp
  have "(push_bit (nat (n mod 32)) 1 - 1 :: int32) = mask (nat (n mod 32))"
    by (simp add: mask_eq_exp_minus_1 push_bit_eq_mult)
  then show ?thesis
    using assms(1) m unfolding available_mask_def masks_inv_def ok_iff
    by (auto simp: bit_simps)
qed

lemma ex_snoc:
  "(\<exists>r<length (qs @ [c]). P r ((qs @ [c]) ! r)) \<longleftrightarrow> (\<exists>r<length qs. P r (qs ! r)) \<or> P (length qs) c"
proof
  assume "\<exists>r<length (qs @ [c]). P r ((qs @ [c]) ! r)"
  then obtain r where r: "r < Suc (length qs)" "P r ((qs @ [c]) ! r)" by auto
  show "(\<exists>r<length qs. P r (qs ! r)) \<or> P (length qs) c"
  proof (cases "r < length qs")
    case True
    with r(2) have "P r (qs ! r)" by (simp add: nth_append)
    with True show ?thesis by blast
  next
    case False
    with r(1) have "r = length qs" by simp
    with r(2) show ?thesis by simp
  qed
next
  assume "(\<exists>r<length qs. P r (qs ! r)) \<or> P (length qs) c"
  then show "\<exists>r<length (qs @ [c]). P r ((qs @ [c]) ! r)"
  proof
    assume "\<exists>r<length qs. P r (qs ! r)"
    then obtain r where "r < length qs" "P r (qs ! r)" by blast
    then have "r < length (qs @ [c]) \<and> P r ((qs @ [c]) ! r)" by (simp add: nth_append)
    then show ?thesis by blast
  next
    assume "P (length qs) c"
    then have "length qs < length (qs @ [c]) \<and> P (length qs) ((qs @ [c]) ! length qs)" by simp
    then show ?thesis by blast
  qed
qed

lemma bit_pick: "bit (push_bit c 1 :: int32) i \<longleftrightarrow> i = c \<and> c < 32"
  by (auto simp: bit_simps)

lemma bit_pick': "bit (2 ^ c :: int32) i \<longleftrightarrow> i = c \<and> c < 32"
  by (auto simp: bit_simps)

lemma bit_shl1: "bit (push_bit 1 w :: int32) i \<longleftrightarrow> 1 \<le> i \<and> i < 32 \<and> bit w (i - 1)"
  unfolding bit_push_bit_iff by (auto simp: possible_bit_word)

lemma bit_sar1:
  "\<not> bit w 31 \<Longrightarrow> bit (signed_drop_bit 1 (w::int32)) i \<longleftrightarrow> i < 31 \<and> bit w (Suc i)"
  unfolding bit_signed_drop_bit_iff
  by (cases "i < 31") (auto dest: bit_imp_le_length)

lemma diag1_arith:
  "(1 \<le> i \<and> ((\<exists>r<length qs. i - 1 = qs ! r + (length qs - r)) \<or> i - 1 = c)) \<longleftrightarrow>
   ((\<exists>r<length qs. i = qs ! r + (Suc (length qs) - r)) \<or> i = c + (Suc (length qs) - length qs))"
proof -
  have a: "(1 \<le> i \<and> i - 1 = qs ! r + (length qs - r)) \<longleftrightarrow> i = qs ! r + (Suc (length qs) - r)"
    if "r < length qs" for r
    using that by arith
  have b: "(1 \<le> i \<and> i - 1 = c) \<longleftrightarrow> i = c + (Suc (length qs) - length qs)"
    by arith
  have "(1 \<le> i \<and> ((\<exists>r<length qs. i - 1 = qs ! r + (length qs - r)) \<or> i - 1 = c)) \<longleftrightarrow>
        ((\<exists>r<length qs. 1 \<le> i \<and> i - 1 = qs ! r + (length qs - r)) \<or> (1 \<le> i \<and> i - 1 = c))"
    by blast
  also have "\<dots> \<longleftrightarrow> ((\<exists>r<length qs. i = qs ! r + (Suc (length qs) - r))
                    \<or> i = c + (Suc (length qs) - length qs))"
    using a b by blast
  finally show ?thesis .
qed

lemma diag2_arith:
  "((\<exists>r<length qs. qs ! r = Suc i + (length qs - r)) \<or> c = Suc i) \<longleftrightarrow>
   ((\<exists>r<length qs. qs ! r = i + (Suc (length qs) - r)) \<or> c = i + (Suc (length qs) - length qs))"
proof -
  have a: "qs ! r = Suc i + (length qs - r) \<longleftrightarrow> qs ! r = i + (Suc (length qs) - r)"
    if "r < length qs" for r
    using that by arith
  have b: "c = Suc i \<longleftrightarrow> c = i + (Suc (length qs) - length qs)"
    by arith
  show ?thesis using a b by blast
qed

lemma masks_inv_step:
  assumes inv: "masks_inv qs columns diag1 diag2" and c: "c < 31" and qs: "\<forall>q\<in>set qs. q < 31"
  shows "masks_inv (qs @ [c]) (columns OR push_bit c 1) (push_bit 1 (diag1 OR push_bit c 1))
           (signed_drop_bit 1 (diag2 OR push_bit c 1))"
proof -
  define pick :: int32 where "pick = push_bit c 1"
  have pick: "bit pick i \<longleftrightarrow> i = c" for i
    using c by (simp add: pick_def bit_pick bit_pick')
  have cols: "\<And>i. bit columns i \<longleftrightarrow> i < 32 \<and> (\<exists>r<length qs. qs ! r = i)"
    and d1: "\<And>i. bit diag1 i \<longleftrightarrow> i < 32 \<and> (\<exists>r<length qs. i = qs ! r + (length qs - r))"
    and d2: "\<And>i. bit diag2 i \<longleftrightarrow> i < 32 \<and> (\<exists>r<length qs. qs ! r = i + (length qs - r))"
    using inv by (simp_all add: masks_inv_def)
  have A: "bit (columns OR pick) i \<longleftrightarrow>
             i < 32 \<and> (\<exists>r<length (qs @ [c]). (qs @ [c]) ! r = i)" for i
    unfolding ex_snoc[where P="\<lambda>r q. q = i"] bit_or_iff pick cols
    using c by auto
  have B: "bit (push_bit 1 (diag1 OR pick)) i \<longleftrightarrow>
             i < 32 \<and> (\<exists>r<length (qs @ [c]). i = (qs @ [c]) ! r + (length (qs @ [c]) - r))" for i
  proof -
    have "bit (push_bit 1 (diag1 OR pick)) i \<longleftrightarrow>
            i < 32 \<and> (1 \<le> i \<and> ((\<exists>r<length qs. i - 1 = qs ! r + (length qs - r)) \<or> i - 1 = c))"
      unfolding bit_shl1 bit_or_iff pick d1 using c by auto
    also have "\<dots> \<longleftrightarrow> i < 32 \<and> (\<exists>r<length (qs @ [c]). i = (qs @ [c]) ! r + (length (qs @ [c]) - r))"
      unfolding diag1_arith
      by (subst ex_snoc[where P="\<lambda>r q. i = q + (length (qs @ [c]) - r)"]) simp
    finally show ?thesis .
  qed
  have q31: "\<And>r. r < length qs \<Longrightarrow> qs ! r < 31"
    using qs by simp
  have no31: "\<not> bit (diag2 OR pick) 31"
    unfolding bit_or_iff pick d2 using c q31 by fastforce
  have C: "bit (signed_drop_bit 1 (diag2 OR pick)) i \<longleftrightarrow>
             i < 32 \<and> (\<exists>r<length (qs @ [c]). (qs @ [c]) ! r = i + (length (qs @ [c]) - r))" for i
  proof -
    have "bit (signed_drop_bit 1 (diag2 OR pick)) i \<longleftrightarrow>
            i < 31 \<and> ((\<exists>r<length qs. qs ! r = Suc i + (length qs - r)) \<or> c = Suc i)"
      unfolding bit_sar1[OF no31] bit_or_iff pick d2 by auto
    also have "\<dots> \<longleftrightarrow> i < 32 \<and> ((\<exists>r<length qs. qs ! r = Suc i + (length qs - r)) \<or> c = Suc i)"
      using c q31 by fastforce
    also have "\<dots> \<longleftrightarrow> i < 32 \<and> (\<exists>r<length (qs @ [c]). (qs @ [c]) ! r = i + (length (qs @ [c]) - r))"
      unfolding diag2_arith
      by (subst ex_snoc[where P="\<lambda>r q. q = i + (length (qs @ [c]) - r)"]) simp
    finally show ?thesis .
  qed
  show ?thesis
    unfolding masks_inv_def pick_def[symmetric] using A B C by blast
qed

lemma log2_nat_pow: "log2_nat (2 ^ c) = c"
proof (induction c)
  case 0
  show ?case by (subst log2_nat.simps) simp
next
  case (Suc c)
  have "\<not> (2::nat) ^ Suc c < 2" by simp
  then show ?case using Suc by (subst log2_nat.simps) simp
qed

lemma unat_pick: "c < 32 \<Longrightarrow> unat (push_bit c 1 :: int32) = 2 ^ c"
proof -
  assume c: "c < 32"
  have "(2::nat) ^ c < 2 ^ 32" using c by (intro power_strict_increasing) simp_all
  then have "take_bit 32 ((2::nat) ^ c) = 2 ^ c" by (simp only: take_bit_nat_eq_self)
  moreover have "unat (push_bit c 1 :: int32) = take_bit 32 (push_bit c (1::nat))"
    by (simp only: unsigned_push_bit_eq unsigned_1 len_bit0 len_num1) simp
  ultimately show ?thesis by (simp add: push_bit_eq_mult)
qed

lemma sint_pick: "c < 31 \<Longrightarrow> sint (push_bit c 1 :: int32) = 2 ^ c"
proof -
  assume c: "c < 31"
  have "(2::int) ^ c < 2 ^ 31" using c by (intro power_strict_increasing) simp_all
  moreover have "- (2 ^ 31) \<le> (2::int) ^ c"
    by (rule order_trans[of _ 0]) simp_all
  ultimately have "signed_take_bit 31 ((2::int) ^ c) = 2 ^ c"
    by (rule signed_take_bit_int_eq_self[rotated])
  moreover have "sint (push_bit c 1 :: int32) = signed_take_bit 31 (push_bit c (1::int))"
    by (simp only: signed_push_bit_eq signed_1 len_bit0 len_num1) simp
  ultimately show ?thesis by (simp add: push_bit_eq_mult)
qed

lemma js_log2_pick: "c < 31 \<Longrightarrow> js_log2 (push_bit c 1) = Number (int c)"
proof -
  assume c: "c < 31"
  have "0 < sint (push_bit c 1 :: int32)" by (simp only: sint_pick[OF c]) simp
  moreover have "log2_nat (unat (push_bit c 1 :: int32)) = c"
    using c by (simp only: unat_pick log2_nat_pow)
  ultimately show ?thesis unfolding js_log2_def by (simp only: if_True)
qed

lemma render_skip:
  assumes f: "\<And>qs c. f (GAttempt qs c) = []"
  shows "\<forall>i. c \<le> i \<and> i < c' \<longrightarrow> \<not> ok qs i \<Longrightarrow> c \<le> c' \<Longrightarrow> c' \<le> m \<Longrightarrow>
         concat (map f (gcols m k qs c)) = concat (map f (gcols m k qs c'))"
proof (induction "c' - c" arbitrary: c)
  case 0
  then show ?case by simp
next
  case (Suc d)
  then have lt: "c < c'" and cm: "c < m" by simp_all
  have nok: "\<not> ok qs c" using Suc.prems(1) lt by simp
  have "concat (map f (gcols m k qs c)) = concat (map f (gcols m k qs (Suc c)))"
    using cm nok by (simp add: gcols_step gtry_def f)
  also have "\<dots> = concat (map f (gcols m k qs c'))"
    using Suc.hyps(2) Suc.prems lt by (intro Suc.hyps(1)) auto
  finally show ?case .
qed

lemma render_skip_all:
  assumes f: "\<And>qs c. f (GAttempt qs c) = []"
    and no: "\<forall>i. c \<le> i \<and> i < m \<longrightarrow> \<not> ok qs i"
  shows "concat (map f (gcols m k qs c)) = []"
proof (cases "c \<le> m")
  case True
  have "concat (map f (gcols m k qs c)) = concat (map f (gcols m k qs m))"
    using render_skip[of f c m qs m k] f no True by simp
  then show ?thesis by (simp add: gcols_done)
next
  case False
  then show ?thesis by (simp add: gcols_done)
qed

lemma mod32_le: "nat (n mod 32) \<le> 31"
  by simp

lemma backtrack_bitmask_refines:
  shows "\<And>qs. 0 \<le> n \<Longrightarrow> masks_inv qs columns diag1 diag2 \<Longrightarrow>
      \<forall>q\<in>set qs. q < nat (n mod 32) \<Longrightarrow>
      board = board_of Undefined (nat n) qs \<Longrightarrow> length qs = row \<Longrightarrow> int row \<le> n \<Longrightarrow>
      backtrack_bitmask n row columns diag1 diag2 board
        = (board, concat (map (render_array (nat n))
                     (gsearch (nat (n mod 32)) (nat n - row) qs)))"
  and "\<And>qs c. 0 \<le> n \<Longrightarrow> masks_inv qs columns diag1 diag2 \<Longrightarrow>
      \<forall>q\<in>set qs. q < nat (n mod 32) \<Longrightarrow>
      \<forall>i. bit available i \<longleftrightarrow> c \<le> i \<and> i < nat (n mod 32) \<and> ok qs i \<Longrightarrow>
      board = board_of Undefined (nat n) qs \<Longrightarrow> length qs = row \<Longrightarrow> int row < n \<Longrightarrow>
      while_bitmask n row columns diag1 diag2 available board
        = (board, concat (map (render_array (nat n))
                     (gcols (nat (n mod 32)) (nat n - Suc row) qs c)))"
proof (induct n row columns diag1 diag2 board and n row columns diag1 diag2 available board
       rule: backtrack_bitmask_while_bitmask.induct)
  case (1 n row columns diag1 diag2 board)
  show ?case
  proof (cases "int row = n")
    case True
    then have "nat n - row = 0" by simp
    then show ?thesis using True 1(5) by (subst backtrack_bitmask.simps) simp
  next
    case False
    with 1(7) have lt: "int row < n" by simp
    then have k: "nat n - row = Suc (nat n - Suc row)" by linarith
    have av: "\<forall>i. bit (available_mask n columns diag1 diag2) i
                  \<longleftrightarrow> 0 \<le> i \<and> i < nat (n mod 32) \<and> ok qs i"
      using available_mask_iff[OF 1(3,2)] by simp
    show ?thesis
      using 1(1)[OF False 1(2,3,4) av 1(5,6) lt] False
      by (subst backtrack_bitmask.simps) (simp add: k gsearch_Suc del: gsearch.simps)
  qed
next
  case (2 n row columns diag1 diag2 available board)
  define m where "m = nat (n mod 32)"
  define k where "k = nat n - Suc row"
  have m31: "m \<le> 31" by (simp add: m_def)
  have av: "\<And>i. bit available i \<longleftrightarrow> c \<le> i \<and> i < m \<and> ok qs i"
    using 2(6) by (simp add: m_def)
  have rown: "row < nat n" using 2(9) by linarith
  have attempt: "\<And>qs c. render_array (nat n) (GAttempt qs c) = []" by simp
  show ?case
  proof (cases "available = 0")
    case True
    have "\<forall>i. c \<le> i \<and> i < m \<longrightarrow> \<not> ok qs i"
      using av True by auto
    then have "concat (map (render_array (nat n)) (gcols m k qs c)) = []"
      using render_skip_all[of "render_array (nat n)" c m qs k] by simp
    then show ?thesis
      using True by (subst while_bitmask.simps) (simp add: m_def k_def)
  next
    case False
    from lowest_bit_ex[OF False] obtain c' where
      c': "bit available c'" and low: "\<forall>j<c'. \<not> bit available j" by blast
    have cc': "c \<le> c'" and c'm: "c' < m" and okc': "ok qs c'"
      using c' av by auto
    have c'31: "c' < 31" using c'm m31 by simp
    have skip: "\<forall>i. c \<le> i \<and> i < c' \<longrightarrow> \<not> ok qs i"
      using low av c'm by auto
    define pick where "pick = available AND - available"
    have pick: "pick = push_bit c' 1"
      unfolding pick_def by (rule pick_lowest_bit[OF c' low])
    define colv where "colv = js_log2 pick"
    have colv: "colv = Number (int c')"
      unfolding colv_def pick by (rule js_log2_pick[OF c'31])
    define board1 where "board1 = set_idx board row colv"
    have b1: "board1 = board_of Undefined (nat n) (qs @ [c'])"
      using rown by (simp add: board1_def colv 2(7) set_board_of 2(8)[symmetric])
    have q31: "\<forall>q\<in>set qs. q < 31" using 2(5) m31 by (auto simp: m_def)
    have inv1: "masks_inv (qs @ [c']) (columns OR pick) (push_bit 1 (diag1 OR pick))
                  (signed_drop_bit 1 (diag2 OR pick))"
      unfolding pick by (rule masks_inv_step[OF 2(4) c'31 q31])
    have qm1: "\<forall>q\<in>set (qs @ [c']). q < nat (n mod 32)"
      using 2(5) c'm by (simp add: m_def)
    have l1: "length (qs @ [c']) = row + 1" using 2(8) by simp
    have le1: "int (row + 1) \<le> n" using 2(9) by simp
    have k1: "nat n - (row + 1) = k" by (simp add: k_def)
    have r1: "backtrack_bitmask n (row + 1) (columns OR pick) (push_bit 1 (diag1 OR pick))
                (signed_drop_bit 1 (diag2 OR pick)) board1
              = (board1, concat (map (render_array (nat n)) (gsearch m k (qs @ [c']))))"
      using 2(1)[OF False pick_def colv_def board1_def 2(3) inv1 qm1 b1 l1 le1]
      by (simp only: k1 m_def)
    have b3: "set_idx board1 row Undefined = board"
      using rown by (simp add: b1 2(7) unset_board_of 2(8)[symmetric])
    have av': "\<forall>i. bit (available AND (available - 1)) i
                   \<longleftrightarrow> Suc c' \<le> i \<and> i < nat (n mod 32) \<and> ok qs i"
    proof
      fix i
      have "bit (available AND (available - 1)) i \<longleftrightarrow> bit available i \<and> i \<noteq> c'"
        by (rule clear_lowest_bit[OF c' low])
      also have "\<dots> \<longleftrightarrow> Suc c' \<le> i \<and> i < m \<and> ok qs i"
        using low av cc' by (cases "i < c'") auto
      finally show "bit (available AND (available - 1)) i
                   \<longleftrightarrow> Suc c' \<le> i \<and> i < nat (n mod 32) \<and> ok qs i"
        by (simp add: m_def)
    qed
    have r2: "while_bitmask n row columns diag1 diag2 (available AND (available - 1)) board
              = (board, concat (map (render_array (nat n)) (gcols m k qs (Suc c'))))"
      using 2(2)[OF False pick_def colv_def board1_def refl r1[symmetric] b3[symmetric]
                 2(3,4,5) av' 2(7,8,9)]
      by (simp only: m_def k_def)
    have "while_bitmask n row columns diag1 diag2 available board =
          (case backtrack_bitmask n (row + 1) (columns OR pick) (push_bit 1 (diag1 OR pick))
                  (signed_drop_bit 1 (diag2 OR pick)) board1 of
             (board2, evs) \<Rightarrow>
               (case while_bitmask n row columns diag1 diag2 (available AND (available - 1))
                       (set_idx board2 row Undefined) of
                  (board4, evs') \<Rightarrow>
                    (board4, PlaceEv row colv board1 # evs @ RemoveEv row colv board2 # evs')))"
      using False
      by (subst while_bitmask.simps)
         (simp only: Let_def pick_def colv_def board1_def if_True not_False_eq_True)
    also have "\<dots> = (board, PlaceEv row colv board1 #
                 concat (map (render_array (nat n)) (gsearch m k (qs @ [c']))) @
                 RemoveEv row colv board1 #
                 concat (map (render_array (nat n)) (gcols m k qs (Suc c'))))"
      by (simp only: r1 b3 r2 prod.case)
    also have "\<dots> = (board, concat (map (render_array (nat n)) (gcols m k qs c')))"
      using c'm okc' by (simp add: gcols_step gtry_def b1 colv 2(8))
    also have "concat (map (render_array (nat n)) (gcols m k qs c'))
             = concat (map (render_array (nat n)) (gcols m k qs c))"
      using render_skip[of "render_array (nat n)" c c' qs m k] skip cc' c'm by simp
    finally show ?thesis by (simp only: m_def k_def)
  qed
qed

lemma backtrack_count_bitmask_refines:
  shows "\<And>qs. 0 \<le> n \<Longrightarrow> masks_inv qs columns diag1 diag2 \<Longrightarrow>
      \<forall>q\<in>set qs. q < nat (n mod 32) \<Longrightarrow> length qs = row \<Longrightarrow> int row \<le> n \<Longrightarrow>
      backtrack_count_bitmask n row columns diag1 diag2 count
        = count + length (concat (map sol_of (gsearch (nat (n mod 32)) (nat n - row) qs)))"
  and "\<And>qs c. 0 \<le> n \<Longrightarrow> masks_inv qs columns diag1 diag2 \<Longrightarrow>
      \<forall>q\<in>set qs. q < nat (n mod 32) \<Longrightarrow>
      \<forall>i. bit available i \<longleftrightarrow> c \<le> i \<and> i < nat (n mod 32) \<and> ok qs i \<Longrightarrow>
      length qs = row \<Longrightarrow> int row < n \<Longrightarrow>
      while_count_bitmask n row columns diag1 diag2 available count
        = count + length (concat (map sol_of (gcols (nat (n mod 32)) (nat n - Suc row) qs c)))"
proof (induct n row columns diag1 diag2 count and n row columns diag1 diag2 available count
       rule: backtrack_count_bitmask_while_count_bitmask.induct)
  case (1 n row columns diag1 diag2 count)
  show ?case
  proof (cases "int row = n")
    case True
    then have "nat n - row = 0" by simp
    then show ?thesis using True by (subst backtrack_count_bitmask.simps) simp
  next
    case False
    with 1(6) have lt: "int row < n" by simp
    then have k: "nat n - row = Suc (nat n - Suc row)" by linarith
    have av: "\<forall>i. bit (available_mask n columns diag1 diag2) i
                  \<longleftrightarrow> 0 \<le> i \<and> i < nat (n mod 32) \<and> ok qs i"
      using available_mask_iff[OF 1(3,2)] by simp
    show ?thesis
      using 1(1)[OF False 1(2,3,4) av 1(5) lt] False
      by (subst backtrack_count_bitmask.simps) (simp add: k gsearch_Suc del: gsearch.simps)
  qed
next
  case (2 n row columns diag1 diag2 available count)
  define m where "m = nat (n mod 32)"
  define k where "k = nat n - Suc row"
  have m31: "m \<le> 31" by (simp add: m_def)
  have av: "\<And>i. bit available i \<longleftrightarrow> c \<le> i \<and> i < m \<and> ok qs i"
    using 2(6) by (simp add: m_def)
  show ?case
  proof (cases "available = 0")
    case True
    have "\<forall>i. c \<le> i \<and> i < m \<longrightarrow> \<not> ok qs i"
      using av True by auto
    then have "concat (map sol_of (gcols m k qs c)) = []"
      using render_skip_all[of sol_of c m qs k] by simp
    then show ?thesis
      using True by (subst while_count_bitmask.simps) (simp add: m_def k_def)
  next
    case False
    from lowest_bit_ex[OF False] obtain c' where
      c': "bit available c'" and low: "\<forall>j<c'. \<not> bit available j" by blast
    have cc': "c \<le> c'" and c'm: "c' < m" and okc': "ok qs c'"
      using c' av by auto
    have c'31: "c' < 31" using c'm m31 by simp
    have skip: "\<forall>i. c \<le> i \<and> i < c' \<longrightarrow> \<not> ok qs i"
      using low av c'm by auto
    define pick where "pick = available AND - available"
    have pick: "pick = push_bit c' 1"
      unfolding pick_def by (rule pick_lowest_bit[OF c' low])
    define available' where "available' = available AND (available - 1)"
    have q31: "\<forall>q\<in>set qs. q < 31" using 2(5) m31 by (auto simp: m_def)
    have inv1: "masks_inv (qs @ [c']) (columns OR pick) (push_bit 1 (diag1 OR pick))
                  (signed_drop_bit 1 (diag2 OR pick))"
      unfolding pick by (rule masks_inv_step[OF 2(4) c'31 q31])
    have qm1: "\<forall>q\<in>set (qs @ [c']). q < nat (n mod 32)"
      using 2(5) c'm by (simp add: m_def)
    have l1: "length (qs @ [c']) = row + 1" using 2(7) by simp
    have le1: "int (row + 1) \<le> n" using 2(8) by simp
    have k1: "nat n - (row + 1) = k" by (simp add: k_def)
    define count' where "count' = backtrack_count_bitmask n (row + 1) (columns OR pick)
                (push_bit 1 (diag1 OR pick)) (signed_drop_bit 1 (diag2 OR pick)) count"
    have r1: "count' = count + length (concat (map sol_of (gsearch m k (qs @ [c']))))"
      unfolding count'_def
      using 2(1)[OF False pick_def available'_def 2(3) inv1 qm1 l1 le1]
      by (simp only: k1 m_def)
    have av': "\<forall>i. bit available' i
                   \<longleftrightarrow> Suc c' \<le> i \<and> i < nat (n mod 32) \<and> ok qs i"
    proof
      fix i
      have "bit available' i \<longleftrightarrow> bit available i \<and> i \<noteq> c'"
        unfolding available'_def by (rule clear_lowest_bit[OF c' low])
      also have "\<dots> \<longleftrightarrow> Suc c' \<le> i \<and> i < m \<and> ok qs i"
        using low av cc' by (cases "i < c'") auto
      finally show "bit available' i
                   \<longleftrightarrow> Suc c' \<le> i \<and> i < nat (n mod 32) \<and> ok qs i"
        by (simp add: m_def)
    qed
    have r2: "while_count_bitmask n row columns diag1 diag2 available' count'
              = count' + length (concat (map sol_of (gcols m k qs (Suc c'))))"
      using 2(2)[OF False pick_def available'_def count'_def 2(3,4,5) av' 2(7,8)]
      by (simp only: m_def k_def)
    have "while_count_bitmask n row columns diag1 diag2 available count =
          while_count_bitmask n row columns diag1 diag2 available' count'"
      using False
      by (subst while_count_bitmask.simps)
         (simp only: Let_def pick_def available'_def count'_def if_True not_False_eq_True)
    also note r2
    also have "count' + length (concat (map sol_of (gcols m k qs (Suc c'))))
             = count + length (concat (map sol_of (gcols m k qs c')))"
      using c'm okc' by (simp add: gcols_step gtry_def r1)
    also have "concat (map sol_of (gcols m k qs c')) = concat (map sol_of (gcols m k qs c))"
      using render_skip[of sol_of c c' qs m k] skip cc' c'm by simp
    finally show ?thesis by (simp only: m_def k_def)
  qed
qed

lemma backtrack_count_bitmask_negative:
  shows "n < 0 \<Longrightarrow> backtrack_count_bitmask n row columns diag1 diag2 count = count"
  and "n < 0 \<Longrightarrow> while_count_bitmask n row columns diag1 diag2 available count = count"
proof (induct n row columns diag1 diag2 count and n row columns diag1 diag2 available count
       rule: backtrack_count_bitmask_while_count_bitmask.induct)
  case (1 n row columns diag1 diag2 count)
  then have ne: "int row \<noteq> n" by simp
  show ?case using 1(1)[OF ne 1(2)] ne by (subst backtrack_count_bitmask.simps) simp
next
  case (2 n row columns diag1 diag2 available count)
  show ?case
  proof (cases "available = 0")
    case True
    then show ?thesis by (subst while_count_bitmask.simps) simp
  next
    case False
    have "while_count_bitmask n row columns diag1 diag2 available count =
          while_count_bitmask n row columns diag1 diag2 (available AND (available - 1))
            (backtrack_count_bitmask n (row + 1) (columns OR (available AND - available))
               (push_bit 1 (diag1 OR (available AND - available)))
               (signed_drop_bit 1 (diag2 OR (available AND - available))) count)"
      using False
      by (subst while_count_bitmask.simps) (simp only: Let_def if_True not_False_eq_True)
    also note 2(2)[OF False refl refl refl 2(3)]
    also note 2(1)[OF False refl refl 2(3)]
    finally show ?thesis .
  qed
qed

subsection \<open>The entry points in terms of the reference search\<close>

lemma board_of_Nil: "board_of u n [] = replicate n u"
  by (simp add: board_of_def)

lemma new_Array_ok: "0 \<le> n \<Longrightarrow> n < 2 ^ 32 \<Longrightarrow> new_Array n = Inr (replicate (nat n) Undefined)"
  by (simp add: new_Array_def)

lemma new_Array_bad: "n < 0 \<or> 2 ^ 32 \<le> n \<Longrightarrow> new_Array n = Inl RangeError"
  by (auto simp: new_Array_def)

lemma solveNQueensArray_eq:
  "solveNQueensArray n =
     (if n < 0 \<or> 2 ^ 32 \<le> n then Inl RangeError
      else Inr (concat (map (render_array (nat n)) (gsearch (nat n) (nat n) []))))"
proof (cases "n < 0 \<or> 2 ^ 32 \<le> n")
  case True
  then show ?thesis by (simp add: solveNQueensArray_def new_Array_bad)
next
  case False
  have "backtrack_array (nat n) 0 (replicate (nat n) Undefined)
        = (replicate (nat n) Undefined,
           concat (map (render_array (nat n)) (gsearch (nat n) (nat n - 0) [])))"
    by (rule backtrack_array_refines(1)) (simp_all add: board_of_Nil)
  with False show ?thesis by (simp add: solveNQueensArray_def new_Array_ok)
qed

lemma countSolutionsArray_eq:
  "countSolutionsArray n =
     (if n < 0 \<or> 2 ^ 32 \<le> n then Inl RangeError
      else Inr (length (gsols (nat n) (nat n) [])))"
proof (cases "n < 0 \<or> 2 ^ 32 \<le> n")
  case True
  then show ?thesis by (simp add: countSolutionsArray_def new_Array_bad)
next
  case False
  have "backtrack_count_array (nat n) 0 (replicate (nat n) Undefined, 0)
        = (fst (replicate (nat n) Undefined, 0::nat),
           snd (replicate (nat n) Undefined, 0::nat)
             + length (concat (map sol_of (gsearch (nat n) (nat n - 0) []))))"
    by (rule backtrack_count_array_refines(1)) (simp_all add: board_of_Nil)
  with False show ?thesis by (simp add: countSolutionsArray_def new_Array_ok gsols_def)
qed

lemma computeTraceSteps_eq:
  "computeTraceSteps n =
     (if n < 0 \<or> 2 ^ 32 \<le> n then Inl RangeError
      else Inr (concat (map (render_steps (nat n)) (gsearch (nat n) (nat n) []))))"
proof (cases "n < 0 \<or> 2 ^ 32 \<le> n")
  case True
  then show ?thesis by (simp add: computeTraceSteps_def new_Array_bad)
next
  case False
  have "solve (nat n) 0 ([], replicate (nat n) (Number (- 1)))
        = (fst ([]::step list, replicate (nat n) (Number (- 1))) @
             concat (map (render_steps (nat n)) (gsearch (nat n) (nat n - 0) [])),
           snd ([]::step list, replicate (nat n) (Number (- 1))))"
    by (rule solve_refines(1)) (simp_all add: board_of_Nil)
  with False show ?thesis by (simp add: computeTraceSteps_def new_Array_ok fill_def)
qed

lemma solveNQueensBitmask_eq:
  "solveNQueensBitmask n =
     (if n < 0 \<or> 2 ^ 32 \<le> n then Inl RangeError
      else Inr (concat (map (render_array (nat n)) (gsearch (nat (n mod 32)) (nat n) []))))"
proof (cases "n < 0 \<or> 2 ^ 32 \<le> n")
  case True
  then show ?thesis by (simp add: solveNQueensBitmask_def new_Array_bad)
next
  case False
  then have n0: "0 \<le> n" by simp
  have "backtrack_bitmask n 0 0 0 0 (replicate (nat n) Undefined)
        = (replicate (nat n) Undefined,
           concat (map (render_array (nat n)) (gsearch (nat (n mod 32)) (nat n - 0) [])))"
    using n0 by (intro backtrack_bitmask_refines(1)) (simp_all add: board_of_Nil masks_inv_Nil)
  with False show ?thesis by (simp add: solveNQueensBitmask_def new_Array_ok)
qed

lemma countSolutionsBitmask_eq:
  "countSolutionsBitmask n =
     Inr (if n < 0 then 0 else length (gsols (nat (n mod 32)) (nat n) []))"
proof (cases "n < 0")
  case True
  then show ?thesis
    by (simp add: countSolutionsBitmask_def backtrack_count_bitmask_negative(1))
next
  case False
  then have n0: "0 \<le> n" by simp
  have "backtrack_count_bitmask n 0 0 0 0 0
        = 0 + length (concat (map sol_of (gsearch (nat (n mod 32)) (nat n - 0) [])))"
    using n0 by (intro backtrack_count_bitmask_refines(1)) (simp_all add: masks_inv_Nil)
  with False show ?thesis by (simp add: countSolutionsBitmask_def gsols_def)
qed

section \<open>Properties of the reference search\<close>

text \<open>Every queen of \<open>qs\<close> was placed on a column that the queens before it do not attack.\<close>

definition safe :: "nat list \<Rightarrow> bool" where
  "safe qs = (\<forall>j<length qs. ok (take j qs) (qs ! j))"

lemma safe_Nil: "safe []"
  by (simp add: safe_def)

lemma safe_snoc: "safe (qs @ [c]) \<longleftrightarrow> safe qs \<and> ok qs c"
proof -
  have "safe (qs @ [c]) \<longleftrightarrow>
        (\<forall>j<length qs. ok (take j (qs @ [c])) ((qs @ [c]) ! j)) \<and>
        ok (take (length qs) (qs @ [c])) ((qs @ [c]) ! length qs)"
    by (auto simp: safe_def less_Suc_eq)
  also have "\<dots> \<longleftrightarrow> safe qs \<and> ok qs c"
    by (simp add: safe_def nth_append)
  finally show ?thesis .
qed

lemma safe_pairs:
  assumes "safe qs" and "i < j" and "j < length qs"
  shows "qs ! i \<noteq> qs ! j \<and> \<bar>int (qs ! i) - int (qs ! j)\<bar> \<noteq> int (j - i)"
proof -
  have "ok (take j qs) (qs ! j)" using assms by (simp add: safe_def)
  then have "\<not> conflict (Number (int (take j qs ! i))) (qs ! j) (length (take j qs) - i)"
    using assms unfolding ok_def by simp
  then show ?thesis using assms by simp
qed

lemma safe_distinct: "safe qs \<Longrightarrow> distinct qs"
proof -
  assume s: "safe qs"
  have "qs ! i \<noteq> qs ! j" if "i < length qs" "j < length qs" "i \<noteq> j" for i j
  proof (cases "i < j")
    case True
    then show ?thesis using safe_pairs[OF s True that(2)] by simp
  next
    case False
    with that have "j < i" by simp
    then show ?thesis using safe_pairs[OF s \<open>j < i\<close> that(1)] by simp
  qed
  then show ?thesis by (simp add: distinct_conv_nth)
qed

text \<open>What each node of the reference search knows about the queens it mentions.\<close>

fun gev_queens :: "gev \<Rightarrow> nat list" where
  "gev_queens (GAttempt qs c) = qs"
| "gev_queens (GPlace qs c) = qs @ [c]"
| "gev_queens (GRemove qs c) = qs @ [c]"
| "gev_queens (GSol qs) = qs"

lemma gsearch_queens:
  "safe qs \<Longrightarrow> set qs \<subseteq> {..<m} \<Longrightarrow> g \<in> set (gsearch m k qs) \<Longrightarrow>
     safe (gev_queens g) \<and> set (gev_queens g) \<subseteq> {..<m}
       \<and> length (gev_queens g) \<le> length qs + k
       \<and> (\<forall>qs'. g = GSol qs' \<longrightarrow> length qs' = length qs + k)"
proof (induction k arbitrary: qs)
  case 0
  then show ?case by simp
next
  case (Suc k)
  from Suc.prems(3) obtain c where c: "c < m"
    and g: "g \<in> set (GAttempt qs c #
              (if ok qs c then GPlace qs c # gsearch m k (qs @ [c]) @ [GRemove qs c] else []))"
    by auto
  show ?case
  proof (cases "g = GAttempt qs c")
    case True
    then show ?thesis using Suc.prems(1,2) by simp
  next
    case False
    with g have okc: "ok qs c"
      and g': "g = GPlace qs c \<or> g \<in> set (gsearch m k (qs @ [c])) \<or> g = GRemove qs c"
      by (auto split: if_splits)
    have s': "safe (qs @ [c])" using Suc.prems(1) okc by (simp add: safe_snoc)
    have m': "set (qs @ [c]) \<subseteq> {..<m}" using Suc.prems(2) c by simp
    from g' show ?thesis
    proof (elim disjE)
      assume "g \<in> set (gsearch m k (qs @ [c]))"
      from Suc.IH[OF s' m' this] show ?thesis by simp
    qed (use s' m' in simp_all)
  qed
qed

section \<open>Boards without attacks\<close>

text \<open>
  Two entries at the distance \<open>d\<close> attack each other: both are numbers, and they are equal
  (the same column) or differ by \<open>d\<close> (a diagonal).
\<close>

fun attack :: "jsval \<Rightarrow> jsval \<Rightarrow> int \<Rightarrow> bool" where
  "attack (Number x) (Number y) d = (x = y \<or> \<bar>x - y\<bar> = d)"
| "attack _ _ d = False"

text \<open>
  No two distinct set entries of the board attack each other; \<open>unset\<close> is the value of an
  entry that holds no queen (\<open>undefined\<close> in \<open>App.jsx\<close>, \<open>-1\<close> in \<open>computeTraceSteps\<close>).
\<close>

definition non_attacking :: "jsval \<Rightarrow> jsval list \<Rightarrow> bool" where
  "non_attacking unset b =
     (\<forall>i<length b. \<forall>j<length b. i \<noteq> j \<longrightarrow> b ! i \<noteq> unset \<longrightarrow> b ! j \<noteq> unset \<longrightarrow>
        \<not> attack (b ! i) (b ! j) \<bar>int i - int j\<bar>)"

text \<open>
  The board is a permutation of \<open>0..n-1\<close> (every entry is a column, the entries are distinct,
  every column occurs) in which no two entries are on a diagonal.
\<close>

definition valid_solution :: "nat \<Rightarrow> jsval list \<Rightarrow> bool" where
  "valid_solution n b =
     (length b = n \<and>
      (\<forall>i<n. \<exists>c<n. b ! i = Number (int c)) \<and>
      distinct b \<and>
      (\<forall>c<n. Number (int c) \<in> set b) \<and>
      (\<forall>i<n. \<forall>j<n. i \<noteq> j \<longrightarrow> \<not> attack (b ! i) (b ! j) \<bar>int i - int j\<bar>))"

lemma safe_no_attack:
  assumes "safe qs" and "i < length qs" and "j < length qs" and "i \<noteq> j"
  shows "\<not> attack (Number (int (qs ! i))) (Number (int (qs ! j))) \<bar>int i - int j\<bar>"
proof (cases "i < j")
  case True
  then show ?thesis using safe_pairs[OF assms(1) True assms(3)] by simp
next
  case False
  with assms have ji: "j < i" by simp
  show ?thesis using safe_pairs[OF assms(1) ji assms(2)] ji by (auto simp: abs_if)
qed

lemma nth_board_of:
  "i < length (board_of u n qs) \<Longrightarrow>
     board_of u n qs ! i = (if i < length qs then Number (int (qs ! i)) else u)"
  by (simp add: board_of_def nth_append)

lemma non_attacking_board_of:
  assumes "safe qs"
  shows "non_attacking u (board_of u n qs)"
  unfolding non_attacking_def
proof (intro allI impI)
  fix i j
  assume i: "i < length (board_of u n qs)" and j: "j < length (board_of u n qs)"
    and ne: "i \<noteq> j" and si: "board_of u n qs ! i \<noteq> u" and sj: "board_of u n qs ! j \<noteq> u"
  have il: "i < length qs" using si nth_board_of[OF i] by (auto split: if_splits)
  have jl: "j < length qs" using sj nth_board_of[OF j] by (auto split: if_splits)
  show "\<not> attack (board_of u n qs ! i) (board_of u n qs ! j) \<bar>int i - int j\<bar>"
    using safe_no_attack[OF assms il jl ne] il jl by (simp add: nth_board_of[OF i] nth_board_of[OF j])
qed

lemma valid_solution_board_of:
  assumes s: "safe qs" and m: "set qs \<subseteq> {..<n}" and l: "length qs = n"
  shows "valid_solution n (board_of u n qs)"
proof -
  have b: "board_of u n qs = map (\<lambda>q. Number (int q)) qs"
    using l by (simp add: board_of_def)
  have d: "distinct qs" by (rule safe_distinct[OF s])
  have "card (set qs) = n" using d l by (simp add: distinct_card)
  then have full: "set qs = {..<n}"
    using m by (intro card_subset_eq) simp_all
  have 1: "\<forall>i<n. \<exists>c<n. board_of u n qs ! i = Number (int c)"
  proof (intro allI impI)
    fix i assume "i < n"
    then have "qs ! i \<in> set qs" using l by simp
    then have "qs ! i < n" using m by auto
    then show "\<exists>c<n. board_of u n qs ! i = Number (int c)"
      using \<open>i < n\<close> l by (auto simp: b)
  qed
  have 2: "distinct (board_of u n qs)"
    using d by (simp add: b distinct_map inj_on_def)
  have 3: "\<forall>c<n. Number (int c) \<in> set (board_of u n qs)"
    using full by (auto simp: b)
  have 4: "\<forall>i<n. \<forall>j<n. i \<noteq> j \<longrightarrow>
             \<not> attack (board_of u n qs ! i) (board_of u n qs ! j) \<bar>int i - int j\<bar>"
    using safe_no_attack[OF s] l by (simp add: b)
  show ?thesis
    unfolding valid_solution_def using l 1 2 3 4 by (simp add: b)
qed

lemma in_render_all:
  "e \<in> set (concat (map f gs)) \<longleftrightarrow> (\<exists>g\<in>set gs. e \<in> set (f g))"
  by auto

lemma solution_length_bound:
  assumes "safe qs" and "set qs \<subseteq> {..<m}"
  shows "length qs \<le> m"
proof -
  have "length qs = card (set qs)" using safe_distinct[OF assms(1)] by (simp add: distinct_card)
  also have "\<dots> \<le> card {..<m}" by (rule card_mono) (use assms(2) in simp_all)
  finally show ?thesis by simp
qed

text \<open>The solutions of the search over \<open>m \<le> n\<close> columns and \<open>n\<close> rows.\<close>

lemma gsearch_solution_valid:
  assumes "GSol qs \<in> set (gsearch m n [])" and "m \<le> n"
  shows "valid_solution n (board_of u n qs)"
proof -
  have "set ([]::nat list) \<subseteq> {..<m}" by simp
  from gsearch_queens[OF safe_Nil this assms(1)]
  have s: "safe qs" and sub: "set qs \<subseteq> {..<m}" and l: "length qs = n" by simp_all
  from sub assms(2) have "set qs \<subseteq> {..<n}" by auto
  then show ?thesis by (rule valid_solution_board_of[OF s _ l])
qed

lemma render_array_solution:
  "SolutionEv b \<in> set (concat (map (render_array n) gs)) \<Longrightarrow>
     \<exists>qs. GSol qs \<in> set gs \<and> b = board_of Undefined n qs"
proof -
  assume "SolutionEv b \<in> set (concat (map (render_array n) gs))"
  then obtain g where gin: "g \<in> set gs" "SolutionEv b \<in> set (render_array n g)"
    unfolding in_render_all by blast
  show ?thesis by (cases g) (use gin in auto)
qed

lemma render_steps_solution:
  "s \<in> set (concat (map (render_steps n) gs)) \<Longrightarrow> step_status s = SolutionSt \<Longrightarrow>
     \<exists>qs. GSol qs \<in> set gs \<and> step_board s = board_of (Number (- 1)) n qs"
proof -
  assume "s \<in> set (concat (map (render_steps n) gs))" and st: "step_status s = SolutionSt"
  then obtain g where gin: "g \<in> set gs" "s \<in> set (render_steps n g)"
    unfolding in_render_all by blast
  show ?thesis by (cases g) (use gin st in auto)
qed

lemma render_array_board1:
  "e \<in> set (render_array n g) \<Longrightarrow> ev_board e = board_of Undefined n (gev_queens g)"
  by (cases g) auto

lemma render_array_board:
  "e \<in> set (concat (map (render_array n) gs)) \<Longrightarrow>
     \<exists>g\<in>set gs. ev_board e = board_of Undefined n (gev_queens g)"
  unfolding in_render_all using render_array_board1 by blast

lemma render_steps_board1:
  "s \<in> set (render_steps n g) \<Longrightarrow>
     step_board s = board_of (Number (- 1)) n (gev_queens g)
       \<or> (\<exists>qs c. gev_queens g = qs @ [c] \<and> step_board s = board_of (Number (- 1)) n qs)"
  by (cases g) auto

lemma render_steps_board:
  "s \<in> set (concat (map (render_steps n) gs)) \<Longrightarrow>
     \<exists>g\<in>set gs. step_board s = board_of (Number (- 1)) n (gev_queens g)
        \<or> (\<exists>qs c. gev_queens g = qs @ [c] \<and> step_board s = board_of (Number (- 1)) n qs)"
  unfolding in_render_all using render_steps_board1 by blast

section \<open>Solutions and snapshots\<close>

lemma mod32_le_self: "0 \<le> n \<Longrightarrow> nat (n mod 32) \<le> nat n"
  by (simp add: nat_mono zmod_le_nonneg_dividend)

text \<open>
  Claim C3. For every \<open>n \<ge> 1\<close> and each trace producer, the board of every event
  tagged "solution" is a permutation of \<open>0..n-1\<close> (every entry set, all entries distinct)
  in which no two distinct entries \<open>i\<close>, \<open>j\<close> satisfy \<open>|board[i] - board[j]| = |i - j|\<close>.
\<close>

theorem C3_solution_boards_are_valid:
  assumes "1 \<le> n"
  shows "(\<forall>evs b. solveNQueensArray n = Inr evs \<longrightarrow> SolutionEv b \<in> set evs \<longrightarrow>
            valid_solution (nat n) b) \<and>
         (\<forall>evs b. solveNQueensBitmask n = Inr evs \<longrightarrow> SolutionEv b \<in> set evs \<longrightarrow>
            valid_solution (nat n) b) \<and>
         (\<forall>steps s. computeTraceSteps n = Inr steps \<longrightarrow> s \<in> set steps \<longrightarrow>
            step_status s = SolutionSt \<longrightarrow> valid_solution (nat n) (step_board s))"
proof (intro conjI allI impI)
  fix evs b
  assume "solveNQueensArray n = Inr evs" and b: "SolutionEv b \<in> set evs"
  then have "evs = concat (map (render_array (nat n)) (gsearch (nat n) (nat n) []))"
    by (simp add: solveNQueensArray_eq split: if_splits)
  with b obtain qs where "GSol qs \<in> set (gsearch (nat n) (nat n) [])"
    and "b = board_of Undefined (nat n) qs"
    using render_array_solution by blast
  then show "valid_solution (nat n) b"
    using gsearch_solution_valid[of qs "nat n" "nat n" Undefined] by simp
next
  fix evs b
  assume e: "solveNQueensBitmask n = Inr evs" and b: "SolutionEv b \<in> set evs"
  then have "evs = concat (map (render_array (nat n)) (gsearch (nat (n mod 32)) (nat n) []))"
    by (simp add: solveNQueensBitmask_eq split: if_splits)
  with b obtain qs where "GSol qs \<in> set (gsearch (nat (n mod 32)) (nat n) [])"
    and "b = board_of Undefined (nat n) qs"
    using render_array_solution by blast
  then show "valid_solution (nat n) b"
    using gsearch_solution_valid[of qs "nat (n mod 32)" "nat n" Undefined] mod32_le_self[of n] assms
    by simp
next
  fix steps s
  assume "computeTraceSteps n = Inr steps" and s: "s \<in> set steps"
    and st: "step_status s = SolutionSt"
  then have "steps = concat (map (render_steps (nat n)) (gsearch (nat n) (nat n) []))"
    by (simp add: computeTraceSteps_eq split: if_splits)
  with s st obtain qs where "GSol qs \<in> set (gsearch (nat n) (nat n) [])"
    and "step_board s = board_of (Number (- 1)) (nat n) qs"
    using render_steps_solution by blast
  then show "valid_solution (nat n) (step_board s)"
    using gsearch_solution_valid[of qs "nat n" "nat n" "Number (- 1)"] by simp
qed

lemma solveNQueensArray_4_has_solution:
  "case solveNQueensArray 4 of
     Inl e \<Rightarrow> False
   | Inr evs \<Rightarrow> SolutionEv [Number 1, Number 3, Number 0, Number 2] \<in> set evs"
  by code_simp

theorem C3_solution_boards_are_valid_witness:
  "(1::int) \<le> 4 \<and>
   (\<exists>evs. solveNQueensArray 4 = Inr evs \<and>
           SolutionEv [Number 1, Number 3, Number 0, Number 2] \<in> set evs) \<and>
   valid_solution 4 [Number 1, Number 3, Number 0, Number 2]"
proof -
  from solveNQueensArray_4_has_solution obtain evs where
    e: "solveNQueensArray 4 = Inr evs"
    and b: "SolutionEv [Number 1, Number 3, Number 0, Number 2] \<in> set evs"
    by (cases "solveNQueensArray 4") auto
  have h: "(1::int) \<le> 4" by simp
  have "valid_solution (nat 4) [Number 1, Number 3, Number 0, Number 2]"
    using C3_solution_boards_are_valid[OF h] e b by blast
  with e b show ?thesis by auto
qed

text \<open>
  Claim C8. For every \<open>n \<ge> 1\<close> and each trace producer, in the board snapshot carried by
  every emitted event of every variant, every pair of distinct set entries \<open>i\<close>, \<open>j\<close> satisfies
  \<open>board[i] \<noteq> board[j]\<close> and \<open>|board[i] - board[j]| \<noteq> |i - j|\<close>.
\<close>

theorem C8_snapshots_have_no_attack:
  assumes "1 \<le> n"
  shows "(\<forall>evs e. solveNQueensArray n = Inr evs \<longrightarrow> e \<in> set evs \<longrightarrow>
            non_attacking Undefined (ev_board e)) \<and>
         (\<forall>evs e. solveNQueensBitmask n = Inr evs \<longrightarrow> e \<in> set evs \<longrightarrow>
            non_attacking Undefined (ev_board e)) \<and>
         (\<forall>steps s. computeTraceSteps n = Inr steps \<longrightarrow> s \<in> set steps \<longrightarrow>
            non_attacking (Number (- 1)) (step_board s))"
proof (intro conjI allI impI)
  fix evs e
  assume "solveNQueensArray n = Inr evs" and e: "e \<in> set evs"
  then have "evs = concat (map (render_array (nat n)) (gsearch (nat n) (nat n) []))"
    by (simp add: solveNQueensArray_eq split: if_splits)
  with e obtain g where g: "g \<in> set (gsearch (nat n) (nat n) [])"
    and b: "ev_board e = board_of Undefined (nat n) (gev_queens g)"
    using render_array_board by blast
  have "safe (gev_queens g)"
    using gsearch_queens[OF safe_Nil _ g] by simp
  then show "non_attacking Undefined (ev_board e)"
    unfolding b by (rule non_attacking_board_of)
next
  fix evs e
  assume "solveNQueensBitmask n = Inr evs" and e: "e \<in> set evs"
  then have "evs = concat (map (render_array (nat n)) (gsearch (nat (n mod 32)) (nat n) []))"
    by (simp add: solveNQueensBitmask_eq split: if_splits)
  with e obtain g where g: "g \<in> set (gsearch (nat (n mod 32)) (nat n) [])"
    and b: "ev_board e = board_of Undefined (nat n) (gev_queens g)"
    using render_array_board by blast
  have "safe (gev_queens g)"
    using gsearch_queens[OF safe_Nil _ g] by simp
  then show "non_attacking Undefined (ev_board e)"
    unfolding b by (rule non_attacking_board_of)
next
  fix steps s
  assume "computeTraceSteps n = Inr steps" and s: "s \<in> set steps"
  then have "steps = concat (map (render_steps (nat n)) (gsearch (nat n) (nat n) []))"
    by (simp add: computeTraceSteps_eq split: if_splits)
  with s obtain g where g: "g \<in> set (gsearch (nat n) (nat n) [])"
    and b: "step_board s = board_of (Number (- 1)) (nat n) (gev_queens g)
        \<or> (\<exists>qs c. gev_queens g = qs @ [c] \<and> step_board s = board_of (Number (- 1)) (nat n) qs)"
    using render_steps_board by blast
  have sg: "safe (gev_queens g)"
    using gsearch_queens[OF safe_Nil _ g] by simp
  from b show "non_attacking (Number (- 1)) (step_board s)"
  proof
    assume "step_board s = board_of (Number (- 1)) (nat n) (gev_queens g)"
    then show ?thesis using sg by (simp add: non_attacking_board_of)
  next
    assume "\<exists>qs c. gev_queens g = qs @ [c] \<and> step_board s = board_of (Number (- 1)) (nat n) qs"
    then obtain qs c where "gev_queens g = qs @ [c]"
      and "step_board s = board_of (Number (- 1)) (nat n) qs" by blast
    then show ?thesis using sg by (simp add: safe_snoc non_attacking_board_of)
  qed
qed

lemma solveNQueensArray_4_has_place:
  "case solveNQueensArray 4 of
     Inl e \<Rightarrow> False
   | Inr evs \<Rightarrow> PlaceEv 2 (Number 0) [Number 1, Number 3, Number 0, Undefined] \<in> set evs"
  by code_simp

theorem C8_snapshots_have_no_attack_witness:
  "(1::int) \<le> 4 \<and>
   (\<exists>evs. solveNQueensArray 4 = Inr evs \<and>
           PlaceEv 2 (Number 0) [Number 1, Number 3, Number 0, Undefined] \<in> set evs) \<and>
   non_attacking Undefined [Number 1, Number 3, Number 0, Undefined]"
proof -
  from solveNQueensArray_4_has_place obtain evs where
    e: "solveNQueensArray 4 = Inr evs"
    and b: "PlaceEv 2 (Number 0) [Number 1, Number 3, Number 0, Undefined] \<in> set evs"
    by (cases "solveNQueensArray 4") auto
  have h: "(1::int) \<le> 4" by simp
  have "non_attacking Undefined
          (ev_board (PlaceEv 2 (Number 0) [Number 1, Number 3, Number 0, Undefined]))"
    using C8_snapshots_have_no_attack[OF h] e b by blast
  with e b show ?thesis by auto
qed

section \<open>Counts and traces\<close>





subsection \<open>The two encodings agree below 32 queens\<close>

lemma mod32_small: "0 \<le> n \<Longrightarrow> n \<le> 31 \<Longrightarrow> n mod 32 = (n::int)"
  by simp

lemma counts_agree:
  "0 \<le> n \<Longrightarrow> n \<le> 31 \<Longrightarrow> countSolutionsBitmask n = countSolutionsArray n"
  by (simp add: countSolutionsBitmask_eq countSolutionsArray_eq mod32_small)

lemma traces_agree:
  "0 \<le> n \<Longrightarrow> n \<le> 31 \<Longrightarrow> solveNQueensBitmask n = solveNQueensArray n"
  by (simp add: solveNQueensBitmask_eq solveNQueensArray_eq mod32_small)

lemma countSolutionsArray_1: "countSolutionsArray 1 = Inr 1" by code_simp
lemma countSolutionsArray_2: "countSolutionsArray 2 = Inr 0" by code_simp
lemma countSolutionsArray_3: "countSolutionsArray 3 = Inr 0" by code_simp
lemma countSolutionsArray_4: "countSolutionsArray 4 = Inr 2" by code_simp
lemma countSolutionsArray_5: "countSolutionsArray 5 = Inr 10" by code_simp
lemma countSolutionsArray_6: "countSolutionsArray 6 = Inr 4" by code_simp
lemma countSolutionsArray_7: "countSolutionsArray 7 = Inr 40" by code_simp
lemma countSolutionsArray_8: "countSolutionsArray 8 = Inr 92" by code_simp

lemma countSolutionsBitmask_1: "countSolutionsBitmask 1 = Inr 1"
  using counts_agree[of 1] countSolutionsArray_1 by simp
lemma countSolutionsBitmask_2: "countSolutionsBitmask 2 = Inr 0"
  using counts_agree[of 2] countSolutionsArray_2 by simp
lemma countSolutionsBitmask_3: "countSolutionsBitmask 3 = Inr 0"
  using counts_agree[of 3] countSolutionsArray_3 by simp
lemma countSolutionsBitmask_4: "countSolutionsBitmask 4 = Inr 2"
  using counts_agree[of 4] countSolutionsArray_4 by simp
lemma countSolutionsBitmask_5: "countSolutionsBitmask 5 = Inr 10"
  using counts_agree[of 5] countSolutionsArray_5 by simp
lemma countSolutionsBitmask_6: "countSolutionsBitmask 6 = Inr 4"
  using counts_agree[of 6] countSolutionsArray_6 by simp
lemma countSolutionsBitmask_7: "countSolutionsBitmask 7 = Inr 40"
  using counts_agree[of 7] countSolutionsArray_7 by simp
lemma countSolutionsBitmask_8: "countSolutionsBitmask 8 = Inr 92"
  using counts_agree[of 8] countSolutionsArray_8 by simp

text \<open>
  Claim C1. For every \<open>N\<close> in \<open>{1,4,5,6,7,8}\<close>, \<open>countSolutionsArray(N)\<close> equals
  \<open>countSolutionsBitmask(N)\<close> and both equal the known number of solutions (1, 2, 10, 4, 40
  and 92); for \<open>N = 2\<close> and \<open>N = 3\<close> both counting functions return 0.
\<close>

theorem C1_known_solution_counts:
  "countSolutionsArray 1 = Inr 1 \<and> countSolutionsBitmask 1 = Inr 1 \<and>
   countSolutionsArray 4 = Inr 2 \<and> countSolutionsBitmask 4 = Inr 2 \<and>
   countSolutionsArray 5 = Inr 10 \<and> countSolutionsBitmask 5 = Inr 10 \<and>
   countSolutionsArray 6 = Inr 4 \<and> countSolutionsBitmask 6 = Inr 4 \<and>
   countSolutionsArray 7 = Inr 40 \<and> countSolutionsBitmask 7 = Inr 40 \<and>
   countSolutionsArray 8 = Inr 92 \<and> countSolutionsBitmask 8 = Inr 92 \<and>
   countSolutionsArray 2 = Inr 0 \<and> countSolutionsBitmask 2 = Inr 0 \<and>
   countSolutionsArray 3 = Inr 0 \<and> countSolutionsBitmask 3 = Inr 0"
  by (intro conjI countSolutionsArray_1 countSolutionsArray_2 countSolutionsArray_3
        countSolutionsArray_4 countSolutionsArray_5 countSolutionsArray_6 countSolutionsArray_7
        countSolutionsArray_8 countSolutionsBitmask_1 countSolutionsBitmask_2
        countSolutionsBitmask_3 countSolutionsBitmask_4 countSolutionsBitmask_5
        countSolutionsBitmask_6 countSolutionsBitmask_7 countSolutionsBitmask_8)

text \<open>
  Claim C2, as stated for every \<open>n \<ge> 1\<close>, fails from 32 queens on: \<open>1 << 32\<close> is 1, so the
  bitmask generator finds no column available and yields nothing, while the array
  generator starts by placing a queen.
\<close>

lemma solveNQueensBitmask_32: "solveNQueensBitmask 32 = Inr []"
  by code_simp

lemma solveNQueensArray_nonempty:
  assumes "1 \<le> n" and "n < 2 ^ 32"
  shows "solveNQueensArray n \<noteq> Inr []"
proof -
  obtain k where k: "nat n = Suc k" using assms(1) by (cases "nat n") auto
  have "ok [] 0" by (simp add: ok_def)
  then have "gcols (nat n) k [] 0 = GAttempt [] 0 # GPlace [] 0 # gsearch (nat n) k [0]
               @ [GRemove [] 0] @ gcols (nat n) k [] (Suc 0)"
    using k by (simp add: gcols_step gtry_def)
  then have "concat (map (render_array (nat n)) (gsearch (nat n) (nat n) [])) \<noteq> []"
    by (simp add: k gsearch_Suc del: gsearch.simps)
  then show ?thesis using assms by (simp add: solveNQueensArray_eq)
qed

theorem C2_counterexample: "solveNQueensArray 32 \<noteq> solveNQueensBitmask 32"
  using solveNQueensArray_nonempty[of 32] by (simp add: solveNQueensBitmask_32)

text \<open>
  Claim C2, amended. For every \<open>n\<close> with \<open>1 \<le> n \<le> 31\<close>, the event sequence produced by
  \<open>solveNQueensArray(n)\<close> is identical, element by element, to the one produced by
  \<open>solveNQueensBitmask(n)\<close>: the same actions, coordinates and board snapshots in the same
  order.
\<close>

theorem C2_traces_identical_up_to_31:
  assumes "1 \<le> n" and "n \<le> 31"
  shows "solveNQueensArray n = solveNQueensBitmask n"
  using assms by (simp add: traces_agree)

lemma traces_4_nonempty:
  "case solveNQueensArray 4 of Inl e \<Rightarrow> False | Inr evs \<Rightarrow> length evs = 34"
  by code_simp

theorem C2_traces_identical_up_to_31_witness:
  "(1::int) \<le> 4 \<and> (4::int) \<le> 31 \<and> solveNQueensArray 4 = solveNQueensBitmask 4 \<and>
   (\<exists>evs. solveNQueensBitmask 4 = Inr evs \<and> length evs = 34)"
proof -
  have h1: "(1::int) \<le> 4" and h2: "(4::int) \<le> 31" by simp_all
  have eq: "solveNQueensArray 4 = solveNQueensBitmask 4"
    by (rule C2_traces_identical_up_to_31[OF h1 h2])
  from traces_4_nonempty obtain evs where a: "solveNQueensArray 4 = Inr evs"
    and l: "length evs = 34"
    by (cases "solveNQueensArray 4") auto
  from a eq have "solveNQueensBitmask 4 = Inr evs" by simp
  with l have "\<exists>evs. solveNQueensBitmask 4 = Inr evs \<and> length evs = 34" by blast
  with eq show ?thesis by simp
qed

section \<open>Availability by masks and validity by scanning\<close>

text \<open>
  The arguments and the board with which \<open>backtrack\<close> of the bitmask searches is entered:
  at the start, and from a call at a row other than \<open>n\<close> for each column \<open>c\<close> whose bit is
  set in \<open>available\<close> (the loop isolates each set bit in turn as \<open>pick\<close>).
\<close>

inductive reachable_bitmask ::
    "int \<Rightarrow> nat \<Rightarrow> int32 \<Rightarrow> int32 \<Rightarrow> int32 \<Rightarrow> jsval list \<Rightarrow> bool"
  for n :: int
where
  start: "new_Array n = Inr board \<Longrightarrow> reachable_bitmask n 0 0 0 0 board"
| descend:
    "reachable_bitmask n row columns diag1 diag2 board \<Longrightarrow> int row \<noteq> n \<Longrightarrow>
     bit (available_mask n columns diag1 diag2) c \<Longrightarrow> pick = push_bit c 1 \<Longrightarrow>
     reachable_bitmask n (row + 1) (columns OR pick) (push_bit 1 (diag1 OR pick))
       (signed_drop_bit 1 (diag2 OR pick)) (set_idx board row (js_log2 pick))"

lemma reachable_bitmask_inv:
  assumes "reachable_bitmask n row columns diag1 diag2 board" and "n \<le> 31"
  shows "0 \<le> n \<and> (\<exists>qs. masks_inv qs columns diag1 diag2 \<and> (\<forall>q\<in>set qs. q < nat n) \<and>
           board = board_of Undefined (nat n) qs \<and> length qs = row \<and> int row \<le> n)"
  using assms
proof (induction rule: reachable_bitmask.induct)
  case (start board)
  then have n0: "0 \<le> n" and b: "board = replicate (nat n) Undefined"
    by (auto simp: new_Array_def split: if_splits)
  have "masks_inv [] 0 0 0 \<and> (\<forall>q\<in>set ([]::nat list). q < nat n) \<and>
        board = board_of Undefined (nat n) [] \<and> length ([]::nat list) = 0 \<and> int 0 \<le> n"
    using n0 b by (simp add: masks_inv_Nil board_of_Nil)
  then show ?case using n0 by blast
next
  case (descend row columns diag1 diag2 board c pick)
  then obtain qs where n0: "0 \<le> n" and inv: "masks_inv qs columns diag1 diag2"
    and qn: "\<forall>q\<in>set qs. q < nat n" and b: "board = board_of Undefined (nat n) qs"
    and l: "length qs = row" and le: "int row \<le> n"
    by blast
  have m: "nat (n mod 32) = nat n" using n0 descend.prems by simp
  have c: "c < nat n" and okc: "ok qs c"
    using available_mask_iff[OF inv n0, of c] descend.hyps(3) by (simp_all add: m)
  have c31: "c < 31" using c descend.prems by linarith
  have q31: "\<forall>q\<in>set qs. q < 31" using qn descend.prems by fastforce
  have lt: "length qs < nat n" using l le descend.hyps(2) by linarith
  have inv': "masks_inv (qs @ [c]) (columns OR pick) (push_bit 1 (diag1 OR pick))
                (signed_drop_bit 1 (diag2 OR pick))"
    unfolding descend.hyps(4) by (rule masks_inv_step[OF inv c31 q31])
  have b': "set_idx board row (js_log2 pick) = board_of Undefined (nat n) (qs @ [c])"
    unfolding descend.hyps(4) js_log2_pick[OF c31] b l[symmetric] by (rule set_board_of[OF lt])
  have "masks_inv (qs @ [c]) (columns OR pick) (push_bit 1 (diag1 OR pick))
          (signed_drop_bit 1 (diag2 OR pick)) \<and>
        (\<forall>q\<in>set (qs @ [c]). q < nat n) \<and>
        set_idx board row (js_log2 pick) = board_of Undefined (nat n) (qs @ [c]) \<and>
        length (qs @ [c]) = row + 1 \<and> int (row + 1) \<le> n"
    using inv' b' qn c l lt by simp
  then show ?case using n0 by blast
qed

text \<open>
  Claim C9. For every partial board reachable by the search with \<open>0 \<le> n \<le> 30\<close>, the
  availability computation of the bitmask strategy,
  \<open>available = ((1 << n) - 1) & ~(columns | diag1 | diag2)\<close>, has bit \<open>c\<close> set if and only if
  placing a queen in column \<open>c\<close> (one of the columns \<open>0..n-1\<close>) at the current row passes the
  scan of the array strategy.
\<close>

theorem C9_available_bit_iff_scan:
  assumes "0 \<le> n" and "n \<le> 30"
    and "reachable_bitmask n row columns diag1 diag2 board"
  shows "bit (available_mask n columns diag1 diag2) c \<longleftrightarrow> c < nat n \<and> scan board row c 0"
proof -
  have n31: "n \<le> 31" using assms(2) by simp
  from reachable_bitmask_inv[OF assms(3) n31] obtain qs where
    inv: "masks_inv qs columns diag1 diag2" and b: "board = board_of Undefined (nat n) qs"
    and l: "length qs = row"
    by blast
  have m: "nat (n mod 32) = nat n" using assms(1) n31 by simp
  have "scan board row c 0 = ok qs c"
    unfolding b l[symmetric] by (rule scan_board_of)
  then show ?thesis
    using available_mask_iff[OF inv assms(1), of c] by (simp add: m)
qed

lemma reachable_bitmask_4_example:
  "reachable_bitmask 4 1 1 2 0 [Number 0, Undefined, Undefined, Undefined]"
proof -
  have s: "reachable_bitmask 4 0 0 0 0 [Undefined, Undefined, Undefined, Undefined]"
    by (rule reachable_bitmask.start) (simp add: new_Array_def numeral_eq_Suc)
  have a: "bit (available_mask 4 0 0 0) 0" by code_simp
  have "reachable_bitmask 4 (0 + 1) (0 OR push_bit 0 1) (push_bit 1 (0 OR push_bit 0 1))
          (signed_drop_bit 1 (0 OR push_bit 0 1))
          (set_idx [Undefined, Undefined, Undefined, Undefined] 0 (js_log2 (push_bit 0 1)))"
    by (rule reachable_bitmask.descend[OF s _ a refl]) simp
  moreover have "js_log2 (push_bit 0 1) = Number 0" using js_log2_pick[of 0] by simp
  ultimately show ?thesis by (simp add: set_idx_def)
qed

theorem C9_available_bit_iff_scan_witness:
  "(0::int) \<le> 4 \<and> (4::int) \<le> 30 \<and>
   reachable_bitmask 4 1 1 2 0 [Number 0, Undefined, Undefined, Undefined] \<and>
   bit (available_mask 4 1 2 0) 2 \<and> (2::nat) < nat 4 \<and>
   scan [Number 0, Undefined, Undefined, Undefined] 1 2 0"
proof -
  have h1: "(0::int) \<le> 4" and h2: "(4::int) \<le> 30" by simp_all
  have a: "bit (available_mask 4 1 2 0) 2" by code_simp
  have "(2::nat) < nat 4 \<and> scan [Number 0, Undefined, Undefined, Undefined] 1 2 0"
    using C9_available_bit_iff_scan[OF h1 h2 reachable_bitmask_4_example, of 2] a by simp
  with reachable_bitmask_4_example a show ?thesis by simp
qed

text \<open>From 32 queens on the agreement is lost: at \<open>n = 32\<close> no bit is available at all.\<close>

lemma available_mask_32:
  "available_mask 32 0 0 0 = 0 \<and> scan (replicate 32 Undefined) 0 0 0"
  by code_simp

section \<open>The order of the solutions\<close>

text \<open>
  The order of JavaScript's \<open><\<close> on board entries (false unless both are numbers), and the
  lexicographic order it induces on boards.
\<close>

fun js_less :: "jsval \<Rightarrow> jsval \<Rightarrow> bool" where
  "js_less (Number a) (Number b) = (a < b)"
| "js_less _ _ = False"

fun lex_less :: "jsval list \<Rightarrow> jsval list \<Rightarrow> bool" where
  "lex_less [] [] = False"
| "lex_less [] (y # ys) = True"
| "lex_less (x # xs) [] = False"
| "lex_less (x # xs) (y # ys) = (js_less x y \<or> (x = y \<and> lex_less xs ys))"

lemma gsols_0: "gsols m 0 qs = [qs]"
  by (simp add: gsols_def)

lemma gsols_Suc:
  "gsols m (Suc k) qs =
     concat (map (\<lambda>c. if ok qs c then gsols m k (qs @ [c]) else []) [0..<m])"
proof -
  have "concat (map sol_of (concat (map F cs)))
          = concat (map (\<lambda>c. concat (map sol_of (F c))) cs)" for F :: "nat \<Rightarrow> gev list" and cs
    by (induction cs) simp_all
  moreover have "concat (map sol_of (GAttempt qs c #
            (if ok qs c then GPlace qs c # gsearch m k (qs @ [c]) @ [GRemove qs c] else [])))
          = (if ok qs c then gsols m k (qs @ [c]) else [])" for c
    by (simp add: gsols_def)
  ultimately show ?thesis
    unfolding gsols_def[of m "Suc k"] gsearch.simps by simp
qed

lemma gsols_prefix:
  "s \<in> set (gsols m k qs) \<Longrightarrow> \<exists>rest. s = qs @ rest \<and> length rest = k"
proof (induction k arbitrary: qs)
  case 0
  then show ?case by (simp add: gsols_0)
next
  case (Suc k)
  then obtain c where "s \<in> set (gsols m k (qs @ [c]))"
    by (auto simp: gsols_Suc split: if_splits)
  from Suc.IH[OF this] obtain rest where "s = (qs @ [c]) @ rest" "length rest = k" by blast
  then have "s = qs @ (c # rest) \<and> length (c # rest) = Suc k" by simp
  then show ?case by blast
qed

lemma lex_less_prefix:
  "c < c' \<Longrightarrow> lex_less (map (\<lambda>q. Number (int q)) (qs @ c # r))
                      (map (\<lambda>q. Number (int q)) (qs @ c' # r'))"
  by (induction qs) simp_all

lemma sorted_wrt_concat_upt:
  assumes "\<And>c. sorted_wrt P (F c)"
    and "\<And>c c' x y. c < c' \<Longrightarrow> x \<in> set (F c) \<Longrightarrow> y \<in> set (F c') \<Longrightarrow> P x y"
  shows "sorted_wrt P (concat (map F [0..<b]))"
proof (induction b)
  case 0
  show ?case by simp
next
  case (Suc b)
  have "\<forall>x\<in>set (concat (map F [0..<b])). \<forall>y\<in>set (F b). P x y"
    using assms(2) by auto
  then show ?case using Suc assms(1) by (simp add: sorted_wrt_append)
qed

lemma gsols_sorted:
  "sorted_wrt (\<lambda>a b. lex_less (map (\<lambda>q. Number (int q)) a) (map (\<lambda>q. Number (int q)) b))
     (gsols m k qs)"
proof (induction k arbitrary: qs)
  case 0
  show ?case by (simp add: gsols_0)
next
  case (Suc k)
  show ?case
    unfolding gsols_Suc
  proof (rule sorted_wrt_concat_upt)
    fix c
    show "sorted_wrt (\<lambda>a b. lex_less (map (\<lambda>q. Number (int q)) a) (map (\<lambda>q. Number (int q)) b))
            (if ok qs c then gsols m k (qs @ [c]) else [])"
      using Suc.IH by simp
  next
    fix c c' x y
    assume lt: "c < (c'::nat)"
      and x: "x \<in> set (if ok qs c then gsols m k (qs @ [c]) else [])"
      and y: "y \<in> set (if ok qs c' then gsols m k (qs @ [c']) else [])"
    from x have "x \<in> set (gsols m k (qs @ [c]))" by (simp split: if_splits)
    then obtain r where r: "x = qs @ c # r" using gsols_prefix by fastforce
    from y have "y \<in> set (gsols m k (qs @ [c']))" by (simp split: if_splits)
    then obtain r' where r': "y = qs @ c' # r'" using gsols_prefix by fastforce
    show "lex_less (map (\<lambda>q. Number (int q)) x) (map (\<lambda>q. Number (int q)) y)"
      unfolding r r' by (rule lex_less_prefix[OF lt])
  qed
qed

lemma board_of_full: "length qs = n \<Longrightarrow> board_of u n qs = map (\<lambda>q. Number (int q)) qs"
  by (simp add: board_of_def)

lemma gsols_boards_sorted:
  "sorted_wrt lex_less (map (board_of u n) (gsols m n []))"
proof -
  have "sorted_wrt (\<lambda>a b. lex_less (board_of u n a) (board_of u n b)) (gsols m n [])"
  proof (rule sorted_wrt_mono_rel[OF _ gsols_sorted])
    fix a b
    assume "a \<in> set (gsols m n [])" and "b \<in> set (gsols m n [])"
      and "lex_less (map (\<lambda>q. Number (int q)) a) (map (\<lambda>q. Number (int q)) b)"
    moreover from this have "length a = n" and "length b = n"
      using gsols_prefix by fastforce+
    ultimately show "lex_less (board_of u n a) (board_of u n b)"
      by (simp add: board_of_full)
  qed
  then show ?thesis by (simp add: sorted_wrt_map)
qed

lemma solution_boards_array:
  "map ev_board (filter is_solution (concat (map (render_array n) gs)))
     = map (board_of Undefined n) (concat (map sol_of gs))"
proof (induction gs)
  case Nil
  show ?case by simp
next
  case (Cons g gs)
  then show ?case by (cases g) simp_all
qed

lemma solution_boards_steps:
  "map step_board (filter (\<lambda>s. step_status s = SolutionSt) (concat (map (render_steps n) gs)))
     = map (board_of (Number (- 1)) n) (concat (map sol_of gs))"
proof (induction gs)
  case Nil
  show ?case by simp
next
  case (Cons g gs)
  then show ?case by (cases g) simp_all
qed

text \<open>
  Claim C5. For every \<open>n \<ge> 1\<close> and each trace producer, the boards of the "solution"
  events, in the order they occur in the trace and read as sequences of column indices, are
  in strictly increasing lexicographic order.
\<close>

theorem C5_solutions_in_lexicographic_order:
  assumes "1 \<le> n"
  shows "(\<forall>evs. solveNQueensArray n = Inr evs \<longrightarrow>
            sorted_wrt lex_less (map ev_board (filter is_solution evs))) \<and>
         (\<forall>evs. solveNQueensBitmask n = Inr evs \<longrightarrow>
            sorted_wrt lex_less (map ev_board (filter is_solution evs))) \<and>
         (\<forall>steps. computeTraceSteps n = Inr steps \<longrightarrow>
            sorted_wrt lex_less
              (map step_board (filter (\<lambda>s. step_status s = SolutionSt) steps)))"
proof (intro conjI allI impI)
  fix evs
  assume "solveNQueensArray n = Inr evs"
  then have "evs = concat (map (render_array (nat n)) (gsearch (nat n) (nat n) []))"
    by (simp add: solveNQueensArray_eq split: if_splits)
  then show "sorted_wrt lex_less (map ev_board (filter is_solution evs))"
    using gsols_boards_sorted[of Undefined "nat n" "nat n"]
    by (simp add: solution_boards_array gsols_def)
next
  fix evs
  assume "solveNQueensBitmask n = Inr evs"
  then have "evs = concat (map (render_array (nat n)) (gsearch (nat (n mod 32)) (nat n) []))"
    by (simp add: solveNQueensBitmask_eq split: if_splits)
  then show "sorted_wrt lex_less (map ev_board (filter is_solution evs))"
    using gsols_boards_sorted[of Undefined "nat n" "nat (n mod 32)"]
    by (simp add: solution_boards_array gsols_def)
next
  fix steps
  assume "computeTraceSteps n = Inr steps"
  then have "steps = concat (map (render_steps (nat n)) (gsearch (nat n) (nat n) []))"
    by (simp add: computeTraceSteps_eq split: if_splits)
  then show "sorted_wrt lex_less
               (map step_board (filter (\<lambda>s. step_status s = SolutionSt) steps))"
    using gsols_boards_sorted[of "Number (- 1)" "nat n" "nat n"]
    by (simp add: solution_boards_steps gsols_def)
qed

lemma computeTraceSteps_4_solutions:
  "case computeTraceSteps 4 of
     Inl e \<Rightarrow> False
   | Inr steps \<Rightarrow>
       map step_board (filter (\<lambda>s. step_status s = SolutionSt) steps)
         = [ [Number 1, Number 3, Number 0, Number 2], [Number 2, Number 0, Number 3, Number 1] ]"
  by code_simp

theorem C5_solutions_in_lexicographic_order_witness:
  "(1::int) \<le> 4 \<and>
   (\<exists>steps. computeTraceSteps 4 = Inr steps \<and>
      map step_board (filter (\<lambda>s. step_status s = SolutionSt) steps)
        = [ [Number 1, Number 3, Number 0, Number 2], [Number 2, Number 0, Number 3, Number 1] ]) \<and>
   sorted_wrt lex_less
     [ [Number 1, Number 3, Number 0, Number 2], [Number 2, Number 0, Number 3, Number 1] ]"
proof -
  from computeTraceSteps_4_solutions obtain steps where
    e: "computeTraceSteps 4 = Inr steps"
    and b: "map step_board (filter (\<lambda>s. step_status s = SolutionSt) steps)
        = [ [Number 1, Number 3, Number 0, Number 2], [Number 2, Number 0, Number 3, Number 1] ]"
    by (cases "computeTraceSteps 4") auto
  have h: "(1::int) \<le> 4" by simp
  have "sorted_wrt lex_less (map step_board (filter (\<lambda>s. step_status s = SolutionSt) steps))"
    using C5_solutions_in_lexicographic_order[OF h] e by blast
  then have srt: "sorted_wrt lex_less
     [ [Number 1, Number 3, Number 0, Number 2], [Number 2, Number 0, Number 3, Number 1] ]"
    unfolding b .
  have ex: "\<exists>steps. computeTraceSteps 4 = Inr steps \<and>
      map step_board (filter (\<lambda>s. step_status s = SolutionSt) steps)
        = [ [Number 1, Number 3, Number 0, Number 2], [Number 2, Number 0, Number 3, Number 1] ]"
    by (rule exI[of _ steps]) (rule conjI[OF e b])
  show ?thesis by (rule conjI[OF h conjI[OF ex srt]])
qed

section \<open>Placements and removals\<close>

text \<open>
  Replaying a trace with a stack of the open placements: a "place" pushes its coordinate, a
  "remove" must name the coordinate on top of the stack and pops it, and at the end of the
  trace no placement is open.
\<close>

fun balanced :: "(nat \<times> jsval) list \<Rightarrow> event list \<Rightarrow> bool" where
  "balanced st [] = (st = [])"
| "balanced st (PlaceEv row col b # es) = balanced ((row, col) # st) es"
| "balanced st (RemoveEv row col b # es) =
     (case st of [] \<Rightarrow> False | p # st' \<Rightarrow> p = (row, col) \<and> balanced st' es)"
| "balanced st (SolutionEv b # es) = balanced st es"

fun is_place :: "nat \<Rightarrow> event \<Rightarrow> bool" where
  "is_place d (PlaceEv row col b) = (row = d)"
| "is_place d _ = False"

fun is_remove :: "nat \<Rightarrow> event \<Rightarrow> bool" where
  "is_remove d (RemoveEv row col b) = (row = d)"
| "is_remove d _ = False"

text \<open>The same for the steps of \<open>computeTraceSteps\<close>, whose depth is the column.\<close>

fun balanced_steps :: "(nat \<times> nat) list \<Rightarrow> step list \<Rightarrow> bool" where
  "balanced_steps st [] = (st = [])"
| "balanced_steps st (s # ss) =
     (case step_status s of
        Placed \<Rightarrow>
          (case step_candidate s of
             None \<Rightarrow> False
           | Some p \<Rightarrow> balanced_steps (p # st) ss)
      | Backtrack \<Rightarrow>
          (case st of
             [] \<Rightarrow> False
           | p # st' \<Rightarrow> step_candidate s = Some p \<and> balanced_steps st' ss)
      | Attempt \<Rightarrow> balanced_steps st ss
      | SolutionSt \<Rightarrow> balanced_steps st ss)"

definition is_placed :: "nat \<Rightarrow> step \<Rightarrow> bool" where
  "is_placed d s =
     (step_status s = Placed \<and>
      (case step_candidate s of None \<Rightarrow> False | Some p \<Rightarrow> fst p = d))"

definition is_backtrack :: "nat \<Rightarrow> step \<Rightarrow> bool" where
  "is_backtrack d s =
     (step_status s = Backtrack \<and>
      (case step_candidate s of None \<Rightarrow> False | Some p \<Rightarrow> fst p = d))"

lemma balanced_counts:
  "balanced st es \<Longrightarrow>
     length (filter (is_place d) es) + length (filter (\<lambda>p. fst p = d) st)
       = length (filter (is_remove d) es)"
proof (induction es arbitrary: st)
  case Nil
  then show ?case by simp
next
  case (Cons e es)
  show ?case
  proof (cases e)
    case (PlaceEv row col b)
    with Cons.prems have "balanced ((row, col) # st) es" by simp
    from Cons.IH[OF this] show ?thesis using PlaceEv by (cases "row = d") simp_all
  next
    case (RemoveEv row col b)
    with Cons.prems obtain st' where st: "st = (row, col) # st'" and b: "balanced st' es"
      by (cases st) auto
    from Cons.IH[OF b] show ?thesis using RemoveEv st by (cases "row = d") simp_all
  next
    case (SolutionEv b)
    with Cons.prems have "balanced st es" by simp
    from Cons.IH[OF this] show ?thesis using SolutionEv by simp
  qed
qed

lemma balanced_steps_counts:
  "balanced_steps st ss \<Longrightarrow>
     length (filter (is_placed d) ss) + length (filter (\<lambda>p. fst p = d) st)
       = length (filter (is_backtrack d) ss)"
proof (induction ss arbitrary: st)
  case Nil
  then show ?case by simp
next
  case (Cons s ss)
  show ?case
  proof (cases "step_status s")
    case Attempt
    with Cons.prems have "balanced_steps st ss" by simp
    from Cons.IH[OF this] show ?thesis using Attempt by (simp add: is_placed_def is_backtrack_def)
  next
    case Placed
    with Cons.prems obtain p where p: "step_candidate s = Some p"
      and b: "balanced_steps (p # st) ss"
      by (cases "step_candidate s") auto
    from Cons.IH[OF b] show ?thesis
      using Placed p by (cases "fst p = d") (simp_all add: is_placed_def is_backtrack_def)
  next
    case Backtrack
    with Cons.prems obtain q st' where st: "st = q # st'"
      and p: "step_candidate s = Some q" and b: "balanced_steps st' ss"
      by (cases st) auto
    from Cons.IH[OF b] show ?thesis
      using Backtrack p st by (cases "fst q = d") (simp_all add: is_placed_def is_backtrack_def)
  next
    case SolutionSt
    with Cons.prems have "balanced_steps st ss" by simp
    from Cons.IH[OF this] show ?thesis
      using SolutionSt by (simp add: is_placed_def is_backtrack_def)
  qed
qed

text \<open>The reference search is balanced, and so is each rendering of it.\<close>

fun gbalanced :: "(nat list \<times> nat) list \<Rightarrow> gev list \<Rightarrow> bool" where
  "gbalanced st [] = (st = [])"
| "gbalanced st (GAttempt qs c # gs) = gbalanced st gs"
| "gbalanced st (GPlace qs c # gs) = gbalanced ((qs, c) # st) gs"
| "gbalanced st (GRemove qs c # gs) =
     (case st of [] \<Rightarrow> False | p # st' \<Rightarrow> p = (qs, c) \<and> gbalanced st' gs)"
| "gbalanced st (GSol qs # gs) = gbalanced st gs"

lemma gbalanced_gsearch:
  "gbalanced st (gsearch m k qs @ rest) = gbalanced st rest"
proof (induction k arbitrary: qs st rest)
  case 0
  show ?case by simp
next
  case (Suc k)
  have cols: "gbalanced st (concat (map (gtry m k qs) cs) @ rest) = gbalanced st rest" for cs
  proof (induction cs)
    case Nil
    show ?case by simp
  next
    case (Cons c cs)
    show ?case
    proof (cases "ok qs c")
      case True
      have "gbalanced st (concat (map (gtry m k qs) (c # cs)) @ rest)
            = gbalanced ((qs, c) # st)
                (gsearch m k (qs @ [c]) @ (GRemove qs c # concat (map (gtry m k qs) cs) @ rest))"
        using True by (simp add: gtry_def)
      also have "\<dots> = gbalanced ((qs, c) # st)
                          (GRemove qs c # concat (map (gtry m k qs) cs) @ rest)"
        by (rule Suc.IH)
      also have "\<dots> = gbalanced st rest"
        using Cons.IH by simp
      finally show ?thesis .
    next
      case False
      then show ?thesis using Cons.IH by (simp add: gtry_def)
    qed
  qed
  show ?case
    using cols[of "[0..<m]"] by (simp add: gsearch_Suc gcols_def del: gsearch.simps)
qed

lemma gbalanced_render_array:
  "gbalanced st gs \<Longrightarrow>
     balanced (map (\<lambda>(qs, c). (length qs, Number (int c))) st) (concat (map (render_array n) gs))"
proof (induction gs arbitrary: st)
  case Nil
  then show ?case by simp
next
  case (Cons g gs)
  show ?case
  proof (cases g)
    case (GRemove qs c)
    with Cons.prems obtain st' where st: "st = (qs, c) # st'" and b: "gbalanced st' gs"
      by (cases st) auto
    from Cons.IH[OF b] show ?thesis using GRemove st by simp
  next
    case (GPlace qs c)
    with Cons.prems have "gbalanced ((qs, c) # st) gs" by simp
    from Cons.IH[OF this] show ?thesis using GPlace by simp
  next
    case (GAttempt qs c)
    with Cons.prems have "gbalanced st gs" by simp
    from Cons.IH[OF this] show ?thesis using GAttempt by simp
  next
    case (GSol qs)
    with Cons.prems have "gbalanced st gs" by simp
    from Cons.IH[OF this] show ?thesis using GSol by simp
  qed
qed

lemma gbalanced_render_steps:
  "gbalanced st gs \<Longrightarrow>
     balanced_steps (map (\<lambda>(qs, c). (length qs, c)) st) (concat (map (render_steps n) gs))"
proof (induction gs arbitrary: st)
  case Nil
  then show ?case by simp
next
  case (Cons g gs)
  show ?case
  proof (cases g)
    case (GRemove qs c)
    with Cons.prems obtain st' where st: "st = (qs, c) # st'" and b: "gbalanced st' gs"
      by (cases st) auto
    from Cons.IH[OF b] show ?thesis using GRemove st by simp
  next
    case (GPlace qs c)
    with Cons.prems have "gbalanced ((qs, c) # st) gs" by simp
    from Cons.IH[OF this] show ?thesis using GPlace by simp
  next
    case (GAttempt qs c)
    with Cons.prems have "gbalanced st gs" by simp
    from Cons.IH[OF this] show ?thesis using GAttempt by simp
  next
    case (GSol qs)
    with Cons.prems have "gbalanced st gs" by simp
    from Cons.IH[OF this] show ?thesis using GSol by simp
  qed
qed

lemma balanced_array_search:
  "balanced [] (concat (map (render_array n) (gsearch m k [])))"
proof -
  have "gbalanced [] (gsearch m k [] @ [])" unfolding gbalanced_gsearch by simp
  then show ?thesis using gbalanced_render_array[of "[]" "gsearch m k []" n] by simp
qed

lemma balanced_steps_search:
  "balanced_steps [] (concat (map (render_steps n) (gsearch m k [])))"
proof -
  have "gbalanced [] (gsearch m k [] @ [])" unfolding gbalanced_gsearch by simp
  then show ?thesis using gbalanced_render_steps[of "[]" "gsearch m k []" n] by simp
qed

lemma final_board_array:
  "fst (backtrack_array n 0 (replicate n Undefined)) = replicate n Undefined"
proof -
  have "backtrack_array n 0 (replicate n Undefined)
        = (replicate n Undefined, concat (map (render_array n) (gsearch n (n - 0) [])))"
    by (rule backtrack_array_refines(1)) (simp_all add: board_of_Nil)
  then show ?thesis by simp
qed

lemma final_board_bitmask:
  "0 \<le> n \<Longrightarrow>
     fst (backtrack_bitmask n 0 0 0 0 (replicate (nat n) Undefined)) = replicate (nat n) Undefined"
proof -
  assume n0: "0 \<le> n"
  have "backtrack_bitmask n 0 0 0 0 (replicate (nat n) Undefined)
        = (replicate (nat n) Undefined,
           concat (map (render_array (nat n)) (gsearch (nat (n mod 32)) (nat n - 0) [])))"
    using n0 by (intro backtrack_bitmask_refines(1)) (simp_all add: board_of_Nil masks_inv_Nil)
  then show ?thesis by simp
qed

lemma final_board_steps:
  "snd (solve n 0 ([], replicate n (Number (- 1)))) = replicate n (Number (- 1))"
proof -
  have "solve n 0 ([], replicate n (Number (- 1)))
        = (fst ([]::step list, replicate n (Number (- 1))) @
             concat (map (render_steps n) (gsearch n (n - 0) [])),
           snd ([]::step list, replicate n (Number (- 1))))"
    by (rule solve_refines(1)) (simp_all add: board_of_Nil)
  then show ?thesis by simp
qed

text \<open>
  Claim C7. For every \<open>n \<ge> 1\<close> and each trace producer, placements and removals are
  balanced: each "place" ("placed") event is followed later in the trace by exactly one
  matching "remove" ("backtrack") event at the same coordinate for that activation, so the
  number of placements equals the number of removals at every depth, and the fully explored
  search ends with no queen on the board.
\<close>

theorem C7_placements_and_removals_balanced:
  assumes "1 \<le> n"
  shows "(\<forall>evs. solveNQueensArray n = Inr evs \<longrightarrow>
            balanced [] evs \<and>
            (\<forall>d. length (filter (is_place d) evs) = length (filter (is_remove d) evs))) \<and>
         (\<forall>evs. solveNQueensBitmask n = Inr evs \<longrightarrow>
            balanced [] evs \<and>
            (\<forall>d. length (filter (is_place d) evs) = length (filter (is_remove d) evs))) \<and>
         (\<forall>steps. computeTraceSteps n = Inr steps \<longrightarrow>
            balanced_steps [] steps \<and>
            (\<forall>d. length (filter (is_placed d) steps) = length (filter (is_backtrack d) steps))) \<and>
         fst (backtrack_array (nat n) 0 (replicate (nat n) Undefined))
           = replicate (nat n) Undefined \<and>
         fst (backtrack_bitmask n 0 0 0 0 (replicate (nat n) Undefined))
           = replicate (nat n) Undefined \<and>
         snd (solve (nat n) 0 ([], replicate (nat n) (Number (- 1))))
           = replicate (nat n) (Number (- 1))"
proof (intro conjI allI impI)
  fix evs d
  assume "solveNQueensArray n = Inr evs"
  then have evs: "evs = concat (map (render_array (nat n)) (gsearch (nat n) (nat n) []))"
    by (simp add: solveNQueensArray_eq split: if_splits)
  show b: "balanced [] evs" unfolding evs by (rule balanced_array_search)
  show "length (filter (is_place d) evs) = length (filter (is_remove d) evs)"
    using balanced_counts[OF b, of d] by simp
next
  fix evs d
  assume "solveNQueensBitmask n = Inr evs"
  then have evs: "evs = concat (map (render_array (nat n))
                          (gsearch (nat (n mod 32)) (nat n) []))"
    by (simp add: solveNQueensBitmask_eq split: if_splits)
  show b: "balanced [] evs" unfolding evs by (rule balanced_array_search)
  show "length (filter (is_place d) evs) = length (filter (is_remove d) evs)"
    using balanced_counts[OF b, of d] by simp
next
  fix steps d
  assume "computeTraceSteps n = Inr steps"
  then have steps: "steps = concat (map (render_steps (nat n)) (gsearch (nat n) (nat n) []))"
    by (simp add: computeTraceSteps_eq split: if_splits)
  show b: "balanced_steps [] steps" unfolding steps by (rule balanced_steps_search)
  show "length (filter (is_placed d) steps) = length (filter (is_backtrack d) steps)"
    using balanced_steps_counts[OF b, of d] by simp
next
  show "fst (backtrack_array (nat n) 0 (replicate (nat n) Undefined))
          = replicate (nat n) Undefined"
    by (rule final_board_array)
  show "fst (backtrack_bitmask n 0 0 0 0 (replicate (nat n) Undefined))
          = replicate (nat n) Undefined"
    using assms by (intro final_board_bitmask) simp
  show "snd (solve (nat n) 0 ([], replicate (nat n) (Number (- 1))))
          = replicate (nat n) (Number (- 1))"
    by (rule final_board_steps)
qed

lemma solveNQueensArray_4_places:
  "case solveNQueensArray 4 of
     Inl e \<Rightarrow> False
   | Inr evs \<Rightarrow> length (filter (is_place 1) evs) = 6"
  by code_simp

theorem C7_placements_and_removals_balanced_witness:
  "(1::int) \<le> 4 \<and>
   (\<exists>evs. solveNQueensArray 4 = Inr evs \<and> balanced [] evs \<and>
           length (filter (is_place 1) evs) = 6 \<and> length (filter (is_remove 1) evs) = 6)"
proof -
  from solveNQueensArray_4_places obtain evs where
    e: "solveNQueensArray 4 = Inr evs" and l: "length (filter (is_place 1) evs) = 6"
    by (cases "solveNQueensArray 4") auto
  have h: "(1::int) \<le> 4" by simp
  have c: "balanced [] evs \<and>
        (\<forall>d. length (filter (is_place d) evs) = length (filter (is_remove d) evs))"
    using C7_placements_and_removals_balanced[OF h] e by blast
  then have b: "balanced [] evs" and r: "length (filter (is_remove 1) evs) = 6"
    using l by simp_all
  have "\<exists>evs. solveNQueensArray 4 = Inr evs \<and> balanced [] evs \<and>
           length (filter (is_place 1) evs) = 6 \<and> length (filter (is_remove 1) evs) = 6"
    by (rule exI[of _ evs]) (intro conjI e b l r)
  with h show ?thesis by (rule conjI)
qed

section \<open>The empty board\<close>

lemma solveNQueensArray_0: "solveNQueensArray 0 = Inr [SolutionEv []]"
  by code_simp

lemma solveNQueensBitmask_0: "solveNQueensBitmask 0 = Inr [SolutionEv []]"
  by code_simp

lemma computeTraceSteps_0:
  "computeTraceSteps 0 =
     Inr [\<lparr>step_board = [], step_candidate = None, step_status = SolutionSt\<rparr>]"
  by code_simp

lemma countSolutionsArray_0: "countSolutionsArray 0 = Inr 1"
  by code_simp

lemma countSolutionsBitmask_0: "countSolutionsBitmask 0 = Inr 1"
  by code_simp

text \<open>
  Claim C10. For \<open>n = 0\<close> every core operation treats the empty board as one trivial
  solution: the two generators and \<open>computeTraceSteps\<close> each produce exactly one event, a
  solution event that carries the empty board, and the two counting functions return 1.
\<close>

theorem C10_empty_board_is_one_solution:
  "solveNQueensArray 0 = Inr [SolutionEv []] \<and>
   solveNQueensBitmask 0 = Inr [SolutionEv []] \<and>
   computeTraceSteps 0 =
     Inr [\<lparr>step_board = [], step_candidate = None, step_status = SolutionSt\<rparr>] \<and>
   countSolutionsArray 0 = Inr 1 \<and>
   countSolutionsBitmask 0 = Inr 1"
  using solveNQueensArray_0 solveNQueensBitmask_0 computeTraceSteps_0
    countSolutionsArray_0 countSolutionsBitmask_0
  by simp

section \<open>Sizes that are not positive integers\<close>
































end
